theory Spec2Isabelle
  imports Main "HOL-Library.Word" "HOL-Library.Multiset" "HOL-Library.List_Lexorder"
begin

unbundle bit_operations_syntax

section \<open>Shared function space data of firedrake (functionspacedata.py)\<close>

text \<open>
  A shallow embedding of \<^verbatim>\<open>firedrake/functionspacedata.py\<close>. Python exceptions are
  values of the type \<open>error\<close>; a function that may raise returns \<open>error + 'a\<close>.
  Python dictionaries whose iteration order matters are association lists, the caches
  are partial maps, numpy integer arrays are lists of \<open>int\<close> with the wrap-around of
  the index type written out where the source does arithmetic on them.
\<close>

datatype error =
  AssertionError | RuntimeError | ValueError | KeyError | IndexError
  | UnboundLocalError | NotImplementedError

subsection \<open>The index type of PyOP2\<close>

text \<open>
  \<^verbatim>\<open>pyop2.datatypes.IntType\<close> is a numpy integer type of 4 or 8 bytes; the module is
  not part of this file, so the type is a parameter of every function that uses it.
\<close>

datatype int_type = Int32 | Int64

fun itemsize :: "int_type \<Rightarrow> nat" where
  "itemsize Int32 = 4"
| "itemsize Int64 = 8"

definition index_bits :: "int_type \<Rightarrow> nat" where
  "index_bits t = itemsize t * 8"

text \<open>The node limit \<^verbatim>\<open>1 << (IntType.itemsize * 8 - 4)\<close> of \<^verbatim>\<open>get_node_set\<close>.\<close>

definition node_limit :: "int_type \<Rightarrow> nat" where
  "node_limit t = push_bit (itemsize t * 8 - 4) 1"

text \<open>What numpy stores when an exact result is written to an array of the index type.\<close>

definition wrap :: "int_type \<Rightarrow> int \<Rightarrow> int" where
  "wrap t x = signed_take_bit (index_bits t - 1) x"

subsection \<open>The \<^verbatim>\<open>cached\<close> decorator\<close>

text \<open>
  \<^verbatim>\<open>cached(f, mesh, key, ...)\<close>: a hit returns the stored value; a miss calls \<open>f\<close> and
  stores the result, unless \<open>f\<close> raises.
\<close>

definition cached :: "('k \<Rightarrow> error + 'v) \<Rightarrow> ('k \<rightharpoonup> 'v) \<Rightarrow> 'k \<Rightarrow> (error + 'v) \<times> ('k \<rightharpoonup> 'v)" where
  "cached f cache key =
     (case cache key of
        Some v \<Rightarrow> (Inr v, cache)
      | None \<Rightarrow>
          (case f key of
             Inl e \<Rightarrow> (Inl e, cache)
           | Inr result \<Rightarrow> (Inr result, cache(key \<mapsto> result))))"

subsection \<open>Global numbering and node set\<close>

text \<open>
  The mesh is the collaborator of this module. The model keeps the attributes and the
  methods that the functions below read: \<^verbatim>\<open>mesh.cell_set._extruded\<close>,
  \<^verbatim>\<open>mesh.variable_layers\<close>, \<^verbatim>\<open>mesh.cell_set.layers\<close>, the storage size of the section
  that \<^verbatim>\<open>mesh.create_section\<close> returns, and \<^verbatim>\<open>mesh.node_classes\<close>.
\<close>

record mesh_topology =
  cell_set_extruded :: bool
  variable_layers :: bool
  cell_set_layers :: nat
  create_section :: "nat list \<Rightarrow> nat"
  node_classes :: "nat list \<Rightarrow> nat list"

text \<open>
  A PyOP2 set: the sizes of its classes (the last one is \<^verbatim>\<open>total_size\<close>) and, for an
  \<^verbatim>\<open>ExtrudedSet\<close>, the number of layers.
\<close>

record op2_set =
  set_sizes :: "nat list"
  set_layers :: "nat option"

definition op2_Set :: "nat list \<Rightarrow> op2_set" where
  "op2_Set sizes = \<lparr>set_sizes = sizes, set_layers = None\<rparr>"

definition op2_ExtrudedSet :: "op2_set \<Rightarrow> nat \<Rightarrow> op2_set" where
  "op2_ExtrudedSet s n = s\<lparr>set_layers := Some n\<rparr>"

definition total_size :: "op2_set \<Rightarrow> nat" where
  "total_size s = last (set_sizes s)"

definition get_global_numbering :: "mesh_topology \<Rightarrow> nat list \<Rightarrow> error + nat" where
  "get_global_numbering mesh nodes_per_entity = Inr (create_section mesh nodes_per_entity)"

text \<open>
  The body of \<^verbatim>\<open>get_node_set\<close>; \<open>global_numbering\<close> is the storage size of the section
  that \<^verbatim>\<open>get_global_numbering\<close> returned.
\<close>

definition get_node_set_body :: "int_type \<Rightarrow> mesh_topology \<Rightarrow> nat \<Rightarrow> nat list \<Rightarrow> error + op2_set" where
  "get_node_set_body t mesh global_numbering nodes_per_entity =
     (let node_set0 = op2_Set (node_classes mesh nodes_per_entity);
          extruded = cell_set_extruded mesh;
          node_set = (if extruded then op2_ExtrudedSet node_set0 2 else node_set0)
      in if global_numbering \<noteq> total_size node_set then Inl AssertionError
         else if \<not> extruded \<and> total_size node_set \<ge> node_limit t then Inl RuntimeError
         else Inr node_set)"

text \<open>The two caches of the mesh that \<^verbatim>\<open>get_node_set\<close> goes through.\<close>

record numbering_caches =
  global_numbering_cache :: "nat list \<rightharpoonup> nat"
  node_set_cache :: "nat list \<rightharpoonup> op2_set"

definition get_node_set :: "int_type \<Rightarrow> mesh_topology \<Rightarrow> numbering_caches \<Rightarrow> nat list
    \<Rightarrow> (error + op2_set) \<times> numbering_caches" where
  "get_node_set t mesh caches nodes_per_entity =
     (case node_set_cache caches nodes_per_entity of
        Some v \<Rightarrow> (Inr v, caches)
      | None \<Rightarrow>
          (case cached (get_global_numbering mesh) (global_numbering_cache caches) nodes_per_entity of
             (Inl e, gc) \<Rightarrow> (Inl e, caches\<lparr>global_numbering_cache := gc\<rparr>)
           | (Inr gn, gc) \<Rightarrow>
               (case get_node_set_body t mesh gn nodes_per_entity of
                  Inl e \<Rightarrow> (Inl e, caches\<lparr>global_numbering_cache := gc\<rparr>)
                | Inr result \<Rightarrow>
                    (Inr result,
                     caches\<lparr>global_numbering_cache := gc,
                            node_set_cache := (node_set_cache caches)(nodes_per_entity \<mapsto> result)\<rparr>))))"

subsection \<open>Work function limits\<close>

text \<open>
  \<^verbatim>\<open>mesh._shared_data_cache["max_work_functions"]\<close> is a dictionary keyed by UFL element.
  The store maps a mesh to this dictionary; a mesh without a shared data cache is not in
  the store, and the \<^verbatim>\<open>assert hasattr(...)\<close> fails for it. A function space is read
  through \<^verbatim>\<open>V.mesh()\<close> and \<^verbatim>\<open>V.ufl_element()\<close> only.
\<close>

record 'e work_space =
  ws_mesh :: nat
  ws_ufl_element :: 'e

type_synonym 'e work_store = "nat \<rightharpoonup> ('e \<rightharpoonup> int)"

definition get_max_work_functions :: "'e work_store \<Rightarrow> 'e work_space \<Rightarrow> error + int" where
  "get_max_work_functions store V =
     (case store (ws_mesh V) of
        None \<Rightarrow> Inl AssertionError
      | Some cache \<Rightarrow> Inr (case cache (ws_ufl_element V) of None \<Rightarrow> 25 | Some v \<Rightarrow> v))"

definition set_max_work_functions :: "'e work_store \<Rightarrow> 'e work_space \<Rightarrow> int \<Rightarrow> error + 'e work_store" where
  "set_max_work_functions store V val =
     (case store (ws_mesh V) of
        None \<Rightarrow> Inl AssertionError
      | Some cache \<Rightarrow> Inr (store(ws_mesh V \<mapsto> cache(ws_ufl_element V \<mapsto> val))))"

text \<open>A sequence of calls of \<^verbatim>\<open>set_max_work_functions\<close>, stopping at the first that raises.\<close>

fun set_all :: "'e work_store \<Rightarrow> ('e work_space \<times> int) list \<Rightarrow> error + 'e work_store" where
  "set_all store [] = Inr store"
| "set_all store ((V, val) # calls) =
     (case set_max_work_functions store V val of
        Inl e \<Rightarrow> Inl e
      | Inr store' \<Rightarrow> set_all store' calls)"

definition same_limit_key :: "'e work_space \<Rightarrow> 'e work_space \<Rightarrow> bool" where
  "same_limit_key V W = (ws_mesh V = ws_mesh W \<and> ws_ufl_element V = ws_ufl_element W)"

subsection \<open>Python dictionaries and loops that may raise\<close>

text \<open>
  A dictionary is an association list in its iteration order, with distinct keys;
  \<^verbatim>\<open>d[k]\<close> raises \<^verbatim>\<open>KeyError\<close> for a missing key.
\<close>

definition getitem :: "('k \<times> 'v) list \<Rightarrow> 'k \<Rightarrow> error + 'v" where
  "getitem d k = (case map_of d k of None \<Rightarrow> Inl KeyError | Some v \<Rightarrow> Inr v)"

text \<open>A loop that appends one result per element and stops at the first exception.\<close>

fun collect :: "('a \<Rightarrow> error + 'b) \<Rightarrow> 'a list \<Rightarrow> error + 'b list" where
  "collect f [] = Inr []"
| "collect f (x # xs) =
     (case f x of
        Inl e \<Rightarrow> Inl e
      | Inr y \<Rightarrow> (case collect f xs of Inl e \<Rightarrow> Inl e | Inr ys \<Rightarrow> Inr (y # ys)))"

text \<open>A loop that updates a state and stops at the first exception.\<close>

fun fold_err :: "('a \<Rightarrow> 's \<Rightarrow> error + 's) \<Rightarrow> 'a list \<Rightarrow> 's \<Rightarrow> error + 's" where
  "fold_err f [] s = Inr s"
| "fold_err f (x # xs) s =
     (case f x s of Inl e \<Rightarrow> Inl e | Inr s' \<Rightarrow> fold_err f xs s')"

subsection \<open>Canonical key of an entity-dofs dictionary\<close>

text \<open>
  \<^verbatim>\<open>entity_dofs\<close> maps an entity key to a dictionary from sub-entity key to the list of
  dofs. One entry of the key is the tuple \<^verbatim>\<open>(k, dofs, dofs, ...)\<close>: the entity key followed
  by the dof tuples in the order of the sorted sub-entity keys.
\<close>

type_synonym ('k, 's) entity_dofs = "('k \<times> ('s \<times> int list) list) list"

definition sub_key :: "('k::linorder, 's::linorder) entity_dofs \<Rightarrow> 'k \<Rightarrow> error + 'k \<times> int list list" where
  "sub_key entity_dofs k =
     (case getitem entity_dofs k of
        Inl e \<Rightarrow> Inl e
      | Inr inner \<Rightarrow>
          (case collect (\<lambda>sk. getitem inner sk) (sort (map fst inner)) of
             Inl e \<Rightarrow> Inl e
           | Inr dofs \<Rightarrow> Inr (k, dofs)))"

definition entity_dofs_key :: "('k::linorder, 's::linorder) entity_dofs \<Rightarrow> error + ('k \<times> int list list) list" where
  "entity_dofs_key entity_dofs = collect (sub_key entity_dofs) (sort (map fst entity_dofs))"

text \<open>
  Equality of two such dictionaries in Python: the same keys, and equal values under
  each key, whatever the iteration order.
\<close>

definition dict_eq :: "('k \<times> 'v) list \<Rightarrow> ('k \<times> 'v) list \<Rightarrow> bool" where
  "dict_eq d e = (set d = set e)"

definition is_dict :: "('k \<times> 'v) list \<Rightarrow> bool" where
  "is_dict d = distinct (map fst d)"

definition entity_dofs_eq :: "('k, 's) entity_dofs \<Rightarrow> ('k, 's) entity_dofs \<Rightarrow> bool" where
  "entity_dofs_eq d e =
     (set (map fst d) = set (map fst e) \<and>
      list_all (\<lambda>(k, inner). list_all (\<lambda>(k', inner'). k' \<noteq> k \<or> dict_eq inner inner') e) d)"

definition is_entity_dofs :: "('k, 's) entity_dofs \<Rightarrow> bool" where
  "is_entity_dofs d = (is_dict d \<and> list_all (\<lambda>(k, inner). is_dict inner) d)"

subsection \<open>numpy arrays\<close>

text \<open>
  An index into an array of length \<open>n\<close>: numpy counts a negative index from the end and
  raises \<^verbatim>\<open>IndexError\<close> outside \<open>-n .. n-1\<close>.
\<close>

definition norm_index :: "nat \<Rightarrow> int \<Rightarrow> error + nat" where
  "norm_index n i =
     (if 0 \<le> i \<and> i < int n then Inr (nat i)
      else if - int n \<le> i \<and> i < 0 then Inr (nat (int n + i))
      else Inl IndexError)"

text \<open>\<^verbatim>\<open>a.take(idx)\<close> and \<^verbatim>\<open>a[idx]\<close> for a flat array \<open>a\<close>.\<close>

definition take_at :: "'a list \<Rightarrow> int \<Rightarrow> error + 'a" where
  "take_at a i = (case norm_index (length a) i of Inl e \<Rightarrow> Inl e | Inr j \<Rightarrow> Inr (a ! j))"

definition np_take :: "'a list \<Rightarrow> int list \<Rightarrow> error + 'a list" where
  "np_take a idx = collect (take_at a) idx"

text \<open>\<^verbatim>\<open>a[idx] = vals\<close>, given as the list of (index, value) pairs; a later pair wins.\<close>

fun np_put :: "int list \<Rightarrow> (int \<times> int) list \<Rightarrow> error + int list" where
  "np_put a [] = Inr a"
| "np_put a ((i, v) # ivs) =
     (case norm_index (length a) i of
        Inl e \<Rightarrow> Inl e
      | Inr j \<Rightarrow> np_put (a[j := v]) ivs)"

text \<open>\<^verbatim>\<open>numpy.unique\<close> (on the flattened array) and \<^verbatim>\<open>numpy.union1d\<close>.\<close>

definition np_unique :: "int list \<Rightarrow> int list" where
  "np_unique a = sort (remdups a)"

definition union1d :: "int list \<Rightarrow> int list \<Rightarrow> int list" where
  "union1d a b = np_unique (a @ b)"

text \<open>\<^verbatim>\<open>functools.reduce(f, xs)\<close> for a non-empty \<open>xs\<close>: one element is returned as it is.\<close>

fun reduce :: "('a \<Rightarrow> 'a \<Rightarrow> 'a) \<Rightarrow> 'a list \<Rightarrow> error + 'a" where
  "reduce f [] = Inl ValueError"
| "reduce f (x # xs) = Inr (foldl f x xs)"

text \<open>
  \<^verbatim>\<open>numpy.searchsorted(a, v)\<close> (side left) for a sorted \<open>a\<close>: the number of elements of \<open>a\<close>
  below the value, for each value of \<open>v\<close>. In \<^verbatim>\<open>get_map\<close> the array \<open>a\<close> is \<^verbatim>\<open>bcids\<close>, which
  is ascending: it is a result of \<^verbatim>\<open>union1d\<close>, or the nodes of the only explicit boundary
  condition, which are a result of \<^verbatim>\<open>boundary_nodes\<close>.
\<close>

definition searchsorted :: "int list \<Rightarrow> int list \<Rightarrow> int list" where
  "searchsorted a v = map (\<lambda>x. int (length (takeWhile (\<lambda>y. y < x) a))) v"

text \<open>\<^verbatim>\<open>numpy.arange(n, dtype=IntType)\<close>.\<close>

definition arange :: "nat \<Rightarrow> int list" where
  "arange n = map int [0..<n]"

text \<open>\<^verbatim>\<open>numpy.where(a == 1)\<close>: the positions of the ones, ascending.\<close>

definition where_one :: "int list \<Rightarrow> int list" where
  "where_one a = map int (filter (\<lambda>i. a ! i = 1) [0..<length a])"

subsection \<open>Boundary nodes\<close>

text \<open>
  A subdomain is \<^verbatim>\<open>"on_boundary"\<close>, \<^verbatim>\<open>"top"\<close>, \<^verbatim>\<open>"bottom"\<close> or the markers of exterior
  facets; a method is a string.
\<close>

datatype sub_domain = OnBoundary | Top | Bottom | Markers "int list"

definition is_top_bottom :: "sub_domain \<Rightarrow> bool" where
  "is_top_bottom sd = (sd = Top \<or> sd = Bottom)"

text \<open>
  What \<^verbatim>\<open>get_boundary_nodes\<close> and \<^verbatim>\<open>boundary_nodes\<close> read of the function space \<open>V\<close> and of
  its mesh: \<^verbatim>\<open>V.extruded\<close>, the values and the offset of
  \<^verbatim>\<open>V.exterior_facet_boundary_node_map(method)\<close>, the size of \<^verbatim>\<open>V.dof_dset.set\<close>,
  \<^verbatim>\<open>V.finat_element.entity_dofs()\<close>, \<^verbatim>\<open>mesh.exterior_facets.subset(sub_domain).indices\<close>,
  the layer-aware routine \<^verbatim>\<open>extnum.boundary_nodes\<close>, the halo exchange of a \<^verbatim>\<open>Dat\<close>
  (\<^verbatim>\<open>global_to_local_begin\<close> and \<^verbatim>\<open>global_to_local_end\<close>) and, for top and bottom,
  the result of \<^verbatim>\<open>get_top_bottom_boundary_nodes\<close>.
\<close>

record ('k, 's) boundary_space =
  bs_extruded :: bool
  bs_variable_layers :: bool
  bs_layers :: nat
  bs_facet_node_values :: "string \<Rightarrow> int list list"
  bs_facet_node_offset :: "string \<Rightarrow> int list"
  bs_dof_set_size :: nat
  bs_entity_dofs :: "('k, 's) entity_dofs"
  bs_flat_entity_dofs :: "('k, 's) entity_dofs"
  bs_facet_subset :: "sub_domain \<Rightarrow> int list"
  bs_extnum_boundary_nodes :: "sub_domain \<Rightarrow> string \<Rightarrow> int list"
  bs_halo_exchange :: "int list \<Rightarrow> int list"
  bs_top_bottom_nodes :: "sub_domain \<Rightarrow> string \<Rightarrow> error + int list"

text \<open>
  The first part of \<^verbatim>\<open>get_boundary_nodes\<close>: the local variable \<^verbatim>\<open>indices\<close> after the
  \<^verbatim>\<open>if\<close>, \<open>None\<close> when no branch has assigned it.
\<close>

definition local_indices :: "('k, 's) boundary_space \<Rightarrow> sub_domain \<Rightarrow> string \<Rightarrow> error + int list option" where
  "local_indices V sub_domain method =
     (if bs_variable_layers V then Inr (Some (bs_extnum_boundary_nodes V sub_domain method))
      else
        (let nodes = bs_facet_node_values V method
         in if sub_domain \<noteq> OnBoundary then
              (case np_take nodes (bs_facet_subset V sub_domain) of
                 Inl e \<Rightarrow> Inl e
               | Inr nodes' \<Rightarrow>
                   if \<not> bs_extruded V then Inr (Some (np_unique (concat nodes')))
                   else
                     (let offset = bs_facet_node_offset V method
                      in Inr (Some (np_unique (concat (map
                           (\<lambda>i. concat (map (\<lambda>row. map2 (\<lambda>x off. x + int i * off) row offset) nodes'))
                           [0..<bs_layers V - 1]))))))
            else Inr None))"

definition get_boundary_nodes :: "('k, 's) boundary_space \<Rightarrow> sub_domain \<Rightarrow> string \<Rightarrow> error + int list" where
  "get_boundary_nodes V sub_domain method =
     (case local_indices V sub_domain method of
        Inl e \<Rightarrow> Inl e
      | Inr None \<Rightarrow> Inl UnboundLocalError
      | Inr (Some indices) \<Rightarrow>
          (case np_put (replicate (bs_dof_set_size V) 0) (map (\<lambda>i. (i, 1)) indices) of
             Inl e \<Rightarrow> Inl e
           | Inr d \<Rightarrow> Inr (where_one (bs_halo_exchange V d))))"

text \<open>
  \<^verbatim>\<open>FunctionSpaceData.boundary_nodes\<close>, with the cache of \<^verbatim>\<open>get_boundary_nodes\<close> on the mesh.
\<close>

type_synonym 'k boundary_key = "('k \<times> int list list) list \<times> sub_domain \<times> string"

definition boundary_nodes :: "('k::linorder, 's::linorder) boundary_space \<Rightarrow> ('k boundary_key \<rightharpoonup> int list)
    \<Rightarrow> sub_domain \<Rightarrow> string \<Rightarrow> (error + int list) \<times> ('k boundary_key \<rightharpoonup> int list)" where
  "boundary_nodes V cache sub_domain method =
     (if method \<noteq> ''topological'' \<and> method \<noteq> ''geometric'' then (Inl ValueError, cache)
      else if is_top_bottom sub_domain then
        (if \<not> bs_extruded V then (Inl ValueError, cache)
         else
           (case entity_dofs_key (bs_flat_entity_dofs V) of
              Inl e \<Rightarrow> (Inl e, cache)
            | Inr k \<Rightarrow> (bs_top_bottom_nodes V sub_domain method, cache)))
      else
        (case entity_dofs_key (bs_entity_dofs V) of
           Inl e \<Rightarrow> (Inl e, cache)
         | Inr k \<Rightarrow>
             cached (\<lambda>key. get_boundary_nodes V (fst (snd key)) (snd (snd key)))
               cache (k, sub_domain, method)))"

subsection \<open>Boundary masks\<close>

text \<open>
  A PETSc section keeps its chart and the dof count set for each point (0 for a point
  never set); the calls of \<^verbatim>\<open>setDof\<close> are kept newest first.
\<close>

record petsc_section =
  sec_chart :: "int \<times> int"
  sec_dofs :: "(nat \<times> nat) list"
  sec_is_setup :: bool

definition section_create :: petsc_section where
  "section_create = \<lparr>sec_chart = (0, 0), sec_dofs = [], sec_is_setup = False\<rparr>"

definition setChart :: "petsc_section \<Rightarrow> int \<Rightarrow> int \<Rightarrow> petsc_section" where
  "setChart sec pstart pend = sec\<lparr>sec_chart := (pstart, pend)\<rparr>"

definition setDof :: "petsc_section \<Rightarrow> nat \<Rightarrow> nat \<Rightarrow> petsc_section" where
  "setDof sec p n = sec\<lparr>sec_dofs := (p, n) # sec_dofs sec\<rparr>"

definition setUp :: "petsc_section \<Rightarrow> petsc_section" where
  "setUp sec = sec\<lparr>sec_is_setup := True\<rparr>"

definition getDof :: "petsc_section \<Rightarrow> nat \<Rightarrow> nat" where
  "getDof sec p = (case map_of (sec_dofs sec) p of None \<Rightarrow> 0 | Some n \<Rightarrow> n)"

text \<open>\<^verbatim>\<open>op2.Map.MapMask(section, indices, facet_points)\<close>.\<close>

record map_mask =
  mm_section :: petsc_section
  mm_indices :: "int list"
  mm_facet_points :: "int list"

text \<open>
  The FInAT element: the spatial dimension of its cell, \<^verbatim>\<open>entity_closure_dofs()\<close>, and
  \<^verbatim>\<open>entity_support_dofs()\<close>, which is \<open>None\<close> when the call raises
  \<^verbatim>\<open>NotImplementedError\<close>. An entity key of a cell of an extruded mesh is a tuple of
  dimensions, ordered as Python orders tuples.
\<close>

record finat_element =
  fe_spatial_dimension :: nat
  fe_entity_closure_dofs :: "(nat list, nat) entity_dofs"
  fe_entity_support_dofs :: "(nat list, nat) entity_dofs option"

record mask_state =
  closure_section :: petsc_section
  support_section :: petsc_section
  closure_indices :: "int list"
  support_indices :: "int list"
  facet_points :: "int list"
  point :: nat

text \<open>The body of the inner loop, \<^verbatim>\<open>for key in sorted(ecd[ent].keys())\<close>.\<close>

definition mask_key_step :: "nat \<Rightarrow> (nat list, nat) entity_dofs \<Rightarrow> (nat list, nat) entity_dofs option
    \<Rightarrow> nat list \<Rightarrow> nat \<Rightarrow> mask_state \<Rightarrow> error + mask_state" where
  "mask_key_step dim ecd esd ent key st =
     (case getitem ecd ent of
        Inl e \<Rightarrow> Inl e
      | Inr inner \<Rightarrow>
     (case getitem inner key of
        Inl e \<Rightarrow> Inl e
      | Inr cdofs \<Rightarrow>
     (let p = point st;
          st1 = st\<lparr>closure_section := setDof (closure_section st) p (length cdofs),
                   closure_indices := closure_indices st @ sort cdofs\<rparr>
      in
     (case (case esd of
              None \<Rightarrow> Inr st1
            | Some sd \<Rightarrow>
                (case getitem sd ent of
                   Inl e \<Rightarrow> Inl e
                 | Inr sinner \<Rightarrow>
                (case getitem sinner key of
                   Inl e \<Rightarrow> Inl e
                 | Inr sdofs \<Rightarrow>
                     Inr (st1\<lparr>support_section := setDof (support_section st1) p (length sdofs),
                              support_indices := support_indices st1 @ sort sdofs\<rparr>)))) of
        Inl e \<Rightarrow> Inl e
      | Inr st2 \<Rightarrow>
          Inr (st2\<lparr>facet_points :=
                      (if int (sum_list ent) = int dim - 1 then facet_points st2 @ [int p]
                       else facet_points st2),
                    point := p + 1\<rparr>)))))"

text \<open>The body of the outer loop, \<^verbatim>\<open>for ent in sorted(ecd.keys())\<close>.\<close>

definition mask_ent_step :: "nat \<Rightarrow> (nat list, nat) entity_dofs \<Rightarrow> (nat list, nat) entity_dofs option
    \<Rightarrow> nat list \<Rightarrow> mask_state \<Rightarrow> error + mask_state" where
  "mask_ent_step dim ecd esd ent st =
     (if sum_list ent = dim then Inr st
      else
        (case getitem ecd ent of
           Inl e \<Rightarrow> Inl e
         | Inr inner \<Rightarrow> fold_err (mask_key_step dim ecd esd ent) (sort (map fst inner)) st))"

definition get_boundary_masks :: "bool \<Rightarrow> finat_element \<Rightarrow> error + (string \<times> map_mask) list option" where
  "get_boundary_masks mesh_extruded el =
     (if \<not> mesh_extruded then Inr None
      else
        (let dim = fe_spatial_dimension el;
             ecd = fe_entity_closure_dofs el;
             esd = fe_entity_support_dofs el;
             chart = int (sum_list (map (\<lambda>(k, inner). length inner) ecd)) - 1;
             st0 = \<lparr>closure_section = setChart section_create 0 chart,
                    support_section = setChart section_create 0 chart,
                    closure_indices = [], support_indices = [], facet_points = [], point = 0\<rparr>
         in
        (case fold_err (mask_ent_step dim ecd esd) (sort (map fst ecd)) st0 of
           Inl e \<Rightarrow> Inl e
         | Inr st \<Rightarrow>
             Inr (Some
               [(''topological'',
                 \<lparr>mm_section = setUp (closure_section st), mm_indices = closure_indices st,
                  mm_facet_points = facet_points st\<rparr>),
                (''geometric'',
                 \<lparr>mm_section = setUp (support_section st), mm_indices = support_indices st,
                  mm_facet_points = facet_points st\<rparr>)]))))"

subsection \<open>Maps with boundary conditions\<close>

text \<open>
  A function space as \<^verbatim>\<open>get_map\<close> reads it: the identity of its topological space, its
  value size, and for a proxy its component and its parent.
\<close>

datatype function_space =
  FunctionSpace (fs_topological: nat) (fs_value_size: nat) (fs_component: "nat option")
    (fs_parent: "function_space option")

text \<open>
  A boundary condition: the value of \<^verbatim>\<open>bc.__hash__()\<close>, \<^verbatim>\<open>bc.sub_domain\<close>,
  \<^verbatim>\<open>bc.method\<close>, \<^verbatim>\<open>bc.nodes\<close> and \<^verbatim>\<open>bc.function_space()\<close>. The class of the
  boundary conditions is not part of this file; its hash is the stable ordering identity
  of the boundary condition, and two boundary conditions are the same key of a dictionary
  when they are the same record.
\<close>

record dirichlet_bc =
  bc_hash :: int
  bc_sub_domain :: sub_domain
  bc_method :: string
  bc_nodes :: "int list"
  bc_function_space :: function_space

datatype entity_set = CellSet | InteriorFacetSet | ExteriorFacetSet | OtherSet nat

text \<open>
  A PyOP2 map. \<open>map_ident\<close> is the identity of the Python object: two maps are the same
  instance when they have the same identity. \<^verbatim>\<open>op2.DecoratedMap\<close> makes a new object
  around a map and sets \<^verbatim>\<open>vector_index\<close> or \<^verbatim>\<open>implicit_bcs\<close>.
\<close>

record op2_map =
  map_ident :: nat
  map_iterset :: entity_set
  map_toset :: op2_set
  map_arity :: nat
  map_values :: "int list list"
  map_name :: string
  map_offset :: "int list option"
  map_parent :: "nat option"
  map_boundary_masks :: "(string \<times> map_mask) list option"
  map_vector_index :: bool
  map_implicit_bcs :: "(sub_domain \<times> string) list option"

definition decorate_vector_index :: "nat \<Rightarrow> op2_map \<Rightarrow> op2_map" where
  "decorate_vector_index ident m = m\<lparr>map_ident := ident, map_vector_index := True\<rparr>"

definition decorate_implicit_bcs :: "nat \<Rightarrow> op2_map \<Rightarrow> (sub_domain \<times> string) list \<Rightarrow> op2_map" where
  "decorate_implicit_bcs ident m ib = m\<lparr>map_ident := ident, map_implicit_bcs := Some ib\<rparr>"

text \<open>
  The slots of \<^verbatim>\<open>FunctionSpaceData\<close> that \<^verbatim>\<open>get_map\<close> uses, and \<open>next_ident\<close>, the
  identity that the next new object gets.
\<close>

record function_space_data =
  map_caches :: "entity_set \<rightharpoonup> (dirichlet_bc list \<rightharpoonup> op2_map)"
  entity_node_lists :: "entity_set \<rightharpoonup> int list list"
  node_set :: op2_set
  boundary_masks :: "(string \<times> map_mask) list option"
  extruded :: bool
  next_ident :: nat

text \<open>The function space \<open>V\<close> of the call: its identity, \<^verbatim>\<open>len(V)\<close> and \<^verbatim>\<open>V.name\<close>.\<close>

record space_handle =
  sp_ident :: nat
  sp_len :: nat
  sp_name :: string

text \<open>The explicit and the implicit boundary conditions: \<^verbatim>\<open>bcs\<close> and \<^verbatim>\<open>implicit_bcs\<close> after line 572.\<close>

definition split_bcs :: "dirichlet_bc list option \<Rightarrow> dirichlet_bc list \<times> (sub_domain \<times> string) list option" where
  "split_bcs bcs =
     (case bcs of
        Some b \<Rightarrow>
          (let explicit_bcs = filter (\<lambda>bc. \<not> is_top_bottom (bc_sub_domain bc)) b;
               implicit_bcs = map (\<lambda>bc. (bc_sub_domain bc, bc_method bc))
                                (filter (\<lambda>bc. is_top_bottom (bc_sub_domain bc)) b)
           in (if length explicit_bcs = 0 then [] else b,
               if length implicit_bcs = 0 then None else Some implicit_bcs))
      | None \<Rightarrow> ([], None))"

text \<open>\<^verbatim>\<open>while fs.component is not None and fs.parent is not None: fs = fs.parent\<close>.\<close>

fun unwind_proxy :: "function_space \<Rightarrow> function_space" where
  "unwind_proxy (FunctionSpace tp vs (Some c) (Some p)) = unwind_proxy p"
| "unwind_proxy fs = fs"

definition check_function_spaces :: "space_handle \<Rightarrow> dirichlet_bc list \<Rightarrow> error + unit" where
  "check_function_spaces V bcs =
     (if list_ex (\<lambda>bc. fs_topological (unwind_proxy (bc_function_space bc)) \<noteq> sp_ident V) bcs
      then Inl RuntimeError else Inr ())"

text \<open>
  \<^verbatim>\<open>nbits = IntType.itemsize * 8 - 2\<close> and \<^verbatim>\<open>1 << (nbits - c)\<close>; Python raises
  \<^verbatim>\<open>ValueError\<close> for a negative shift count.
\<close>

definition nbits :: "int_type \<Rightarrow> nat" where
  "nbits t = itemsize t * 8 - 2"

definition high_bit :: "int_type \<Rightarrow> nat \<Rightarrow> error + int" where
  "high_bit t c = (if c > nbits t then Inl ValueError else Inr (push_bit (nbits t - c) 1))"

text \<open>
  \<^verbatim>\<open>negids[idx] |= (1 << (nbits - c))\<close>: numpy reads \<^verbatim>\<open>negids[idx]\<close>, ors the bit in, and
  writes the result back; the read comes before the shift.
\<close>

definition or_high_bit :: "int_type \<Rightarrow> int list \<Rightarrow> nat \<Rightarrow> int list \<Rightarrow> error + int list" where
  "or_high_bit t idx c negids =
     (case np_take negids idx of
        Inl e \<Rightarrow> Inl e
      | Inr old \<Rightarrow>
          (case high_bit t c of
             Inl e \<Rightarrow> Inl e
           | Inr v \<Rightarrow> np_put negids (zip idx (map (\<lambda>x. x OR v) old))))"

text \<open>\<^verbatim>\<open>any(bc.function_space().component is not None for bc in lbcs)\<close>.\<close>

definition any_component :: "dirichlet_bc list \<Rightarrow> bool" where
  "any_component lbcs = list_ex (\<lambda>bc. fs_component (bc_function_space bc) \<noteq> None) lbcs"

text \<open>The body of the loop \<^verbatim>\<open>for bc in lbcs\<close> on a cache miss.\<close>

definition bc_step :: "int_type \<Rightarrow> bool \<Rightarrow> int list \<Rightarrow> dirichlet_bc \<Rightarrow> int list \<Rightarrow> error + int list" where
  "bc_step t decorate bcids bc negids =
     (if is_top_bottom (bc_sub_domain bc) then Inr negids
      else
        (let fs = bc_function_space bc
         in
        (case (if decorate \<and> fs_component fs = None then
                 (let idx = searchsorted bcids (bc_nodes bc)
                  in if fs_value_size fs > 3 then Inl ValueError
                     else fold_err (or_high_bit t idx) [0..<fs_value_size fs] negids)
               else Inr negids) of
           Inl e \<Rightarrow> Inl e
         | Inr negids1 \<Rightarrow>
             (case fs_component fs of
                None \<Rightarrow> Inr negids1
              | Some c \<Rightarrow> or_high_bit t (searchsorted bcids (bc_nodes bc)) c negids1))))"

text \<open>The new entity-node list of a cache miss (lines 598 to 646).\<close>

definition constrained_values :: "int_type \<Rightarrow> function_space_data \<Rightarrow> dirichlet_bc list \<Rightarrow> int list list
    \<Rightarrow> error + int list list" where
  "constrained_values t self lbcs entity_node_list =
     (let nodes = map bc_nodes (filter (\<lambda>bc. \<not> is_top_bottom (bc_sub_domain bc)) lbcs);
          decorate = any_component lbcs
      in if nodes \<noteq> [] then
           (case reduce union1d nodes of
              Inl e \<Rightarrow> Inl e
            | Inr bcids \<Rightarrow>
           (case fold_err (bc_step t decorate bcids) lbcs bcids of
              Inl e \<Rightarrow> Inl e
            | Inr negids \<Rightarrow>
           (let node_list_bc = arange (total_size (node_set self))
            in
           (case (if extruded self then np_put node_list_bc (map (\<lambda>i. (i, - 10000000)) bcids)
                  else np_put node_list_bc
                         (zip bcids (map (\<lambda>x. wrap t (- wrap t (x + 1))) negids))) of
              Inl e \<Rightarrow> Inl e
            | Inr node_list_bc' \<Rightarrow> collect (np_take node_list_bc') entity_node_list))))
         else Inr entity_node_list)"

definition get_map :: "int_type \<Rightarrow> function_space_data \<Rightarrow> space_handle \<Rightarrow> entity_set \<Rightarrow> nat
    \<Rightarrow> dirichlet_bc list option \<Rightarrow> string \<Rightarrow> int list option \<Rightarrow> nat option
    \<Rightarrow> error + op2_map \<times> function_space_data" where
  "get_map t self V entity_set arity bcs name offset parent =
     (if sp_len V \<noteq> 1 then Inl AssertionError
      else
     (case entity_node_lists self entity_set of
        None \<Rightarrow> Inl KeyError
      | Some entity_node_list \<Rightarrow>
     (let bcs' = fst (split_bcs bcs);
          implicit_bcs = snd (split_bcs bcs)
      in
     (case check_function_spaces V bcs' of
        Inl e \<Rightarrow> Inl e
      | Inr u \<Rightarrow>
     (let lbcs = sort_key bc_hash bcs'
      in
     (case map_caches self entity_set of
        None \<Rightarrow> Inl KeyError
      | Some cache \<Rightarrow>
     (case cache lbcs of
        Some val \<Rightarrow>
          (case implicit_bcs of
             Some ib \<Rightarrow>
               Inr (decorate_implicit_bcs (next_ident self) val ib,
                    self\<lparr>next_ident := next_ident self + 1\<rparr>)
           | None \<Rightarrow> Inr (val, self))
      | None \<Rightarrow>
     (case constrained_values t self lbcs entity_node_list of
        Inl e \<Rightarrow> Inl e
      | Inr new_entity_node_list \<Rightarrow>
     (let decorate = any_component lbcs;
          val0 = \<lparr>map_ident = next_ident self, map_iterset = entity_set,
                  map_toset = node_set self, map_arity = arity,
                  map_values = new_entity_node_list, map_name = sp_name V @ ''_'' @ name,
                  map_offset = offset, map_parent = parent,
                  map_boundary_masks = boundary_masks self,
                  map_vector_index = False, map_implicit_bcs = None\<rparr>;
          val = (if decorate then decorate_vector_index (next_ident self + 1) val0 else val0);
          fresh = (if decorate then next_ident self + 2 else next_ident self + 1);
          self' = self\<lparr>map_caches := (map_caches self)(entity_set \<mapsto> cache(lbcs \<mapsto> val))\<rparr>
      in
     (case implicit_bcs of
        Some ib \<Rightarrow> Inr (decorate_implicit_bcs fresh val ib, self'\<lparr>next_ident := fresh + 1\<rparr>)
      | None \<Rightarrow> Inr (val, self'\<lparr>next_ident := fresh\<rparr>)))))))))))"

subsection \<open>Predicates of the properties\<close>

text \<open>A boundary condition that is not on the top or the bottom of an extruded mesh.\<close>

definition explicit_bc :: "dirichlet_bc \<Rightarrow> bool" where
  "explicit_bc bc = (\<not> is_top_bottom (bc_sub_domain bc))"

text \<open>
  The components whose bits the loop body sets for \<open>bc\<close>, and the boundary condition for
  which the loop body raises \<^verbatim>\<open>ValueError\<close>.
\<close>

definition bc_components :: "bool \<Rightarrow> dirichlet_bc \<Rightarrow> nat list" where
  "bc_components decorate bc =
     (let fs = bc_function_space bc
      in (if decorate \<and> fs_component fs = None then [0..<fs_value_size fs] else []) @
         (case fs_component fs of None \<Rightarrow> [] | Some c \<Rightarrow> [c]))"

definition too_many_components :: "bool \<Rightarrow> dirichlet_bc \<Rightarrow> bool" where
  "too_many_components decorate bc =
     (explicit_bc bc \<and> decorate \<and> fs_component (bc_function_space bc) = None \<and>
      fs_value_size (bc_function_space bc) > 3)"

text \<open>The nodes of the explicit boundary conditions.\<close>

definition constrained_nodes :: "dirichlet_bc list \<Rightarrow> int set" where
  "constrained_nodes bcs = (\<Union>bc \<in> set (filter explicit_bc bcs). set (bc_nodes bc))"

text \<open>
  The bits of the index type below the three component bits, and the relation between a
  node \<open>n\<close> and its entry \<open>e\<close> of \<^verbatim>\<open>negids\<close>: the low bits of \<open>e\<close> are \<open>n\<close>, and \<open>e\<close> fits the
  non-negative range of the index type.
\<close>

definition low_bits :: "int_type \<Rightarrow> nat" where
  "low_bits t = index_bits t - 4"

definition packed :: "int_type \<Rightarrow> int \<Rightarrow> int \<Rightarrow> bool" where
  "packed t e n = (0 \<le> e \<and> e < 2 ^ (index_bits t - 1) \<and> take_bit (index_bits t - 4) e = n)"

text \<open>
  The invariant of the map caches: a cached map holds the values that a cache miss
  computes for its key. It holds for the empty caches that \<^verbatim>\<open>get_map_caches\<close> makes and
  \<^verbatim>\<open>get_map\<close> keeps it.
\<close>

definition cache_ok :: "int_type \<Rightarrow> function_space_data \<Rightarrow> bool" where
  "cache_ok t self =
     (\<forall>es cache key m enl.
        map_caches self es = Some cache \<longrightarrow> cache key = Some m \<longrightarrow>
        entity_node_lists self es = Some enl \<longrightarrow>
        constrained_values t self key enl = Inr (map_values m))"

text \<open>
  The topological mask in closed form. \<open>closure_entries\<close> lists, for the entities other
  than the cell in ascending order of their keys and for their sub-entities in ascending
  order, the entity key and the closure dofs. The point of an entry is its position in
  this list: the section gives every point the number of its dofs (newest first, as
  \<open>setDof\<close> keeps them), the indices are the sorted dofs of the entries one after the
  other, and the facet points are the points of the entities of the facet dimension.
\<close>

definition ent_entries :: "nat \<Rightarrow> (nat list, nat) entity_dofs \<Rightarrow> nat list \<Rightarrow> (nat list \<times> int list) list" where
  "ent_entries dim ecd ent =
     (if sum_list ent = dim then []
      else (case map_of ecd ent of
              None \<Rightarrow> []
            | Some inner \<Rightarrow>
                map (\<lambda>key. (ent, case map_of inner key of None \<Rightarrow> [] | Some d \<Rightarrow> d))
                  (sort (map fst inner))))"

definition closure_entries :: "nat \<Rightarrow> (nat list, nat) entity_dofs \<Rightarrow> (nat list \<times> int list) list" where
  "closure_entries dim ecd = concat (map (ent_entries dim ecd) (sort (map fst ecd)))"

definition mask_chart :: "(nat list, nat) entity_dofs \<Rightarrow> int" where
  "mask_chart ecd = int (sum_list (map (\<lambda>(k, inner). length inner) ecd)) - 1"

definition entry_dofs :: "nat \<Rightarrow> (nat list \<times> int list) list \<Rightarrow> (nat \<times> nat) list" where
  "entry_dofs p es = map (\<lambda>(q, ent, d). (q, length d)) (enumerate p es)"

definition entry_indices :: "(nat list \<times> int list) list \<Rightarrow> int list" where
  "entry_indices es = concat (map (\<lambda>(ent, d). sort d) es)"

definition entry_facets :: "nat \<Rightarrow> nat \<Rightarrow> (nat list \<times> int list) list \<Rightarrow> int list" where
  "entry_facets dim p es =
     map (\<lambda>(q, ent, d). int q)
       (filter (\<lambda>(q, ent, d). int (sum_list ent) = int dim - 1) (enumerate p es))"

definition topological_mask :: "nat \<Rightarrow> (nat list, nat) entity_dofs \<Rightarrow> map_mask" where
  "topological_mask dim ecd =
     \<lparr>mm_section = \<lparr>sec_chart = (0, mask_chart ecd),
                     sec_dofs = rev (entry_dofs 0 (closure_entries dim ecd)),
                     sec_is_setup = True\<rparr>,
      mm_indices = entry_indices (closure_entries dim ecd),
      mm_facet_points = entry_facets dim 0 (closure_entries dim ecd)\<rparr>"

text \<open>The state of the loops of \<^verbatim>\<open>get_boundary_masks\<close> after the entries \<open>es\<close>, without support dofs.\<close>

definition mask_after :: "nat \<Rightarrow> (nat list \<times> int list) list \<Rightarrow> mask_state \<Rightarrow> mask_state" where
  "mask_after dim es st =
     st\<lparr>closure_section :=
          (closure_section st)\<lparr>sec_dofs := rev (entry_dofs (point st) es) @ sec_dofs (closure_section st)\<rparr>,
        closure_indices := closure_indices st @ entry_indices es,
        facet_points := facet_points st @ entry_facets dim (point st) es,
        point := point st + length es\<rparr>"

text \<open>Every entry of an array is a node of a set of size \<open>n\<close>.\<close>

definition nodes_below :: "nat \<Rightarrow> int list \<Rightarrow> bool" where
  "nodes_below n a = list_all (\<lambda>x. 0 \<le> x \<and> x < int n) a"

subsection \<open>Example inputs\<close>

text \<open>A mesh that is not extruded and has \<open>n\<close> nodes in every class.\<close>

definition flat_mesh :: "nat \<Rightarrow> mesh_topology" where
  "flat_mesh n = \<lparr>cell_set_extruded = False, variable_layers = False, cell_set_layers = 0,
     create_section = (\<lambda>npe. n), node_classes = (\<lambda>npe. [n, n, n])\<rparr>"

text \<open>Two entity-dofs dictionaries with the same content in different iteration orders.\<close>

definition p1_dofs :: "(nat, nat) entity_dofs" where
  "p1_dofs = [(1, [(2, [5, 4]), (0, [3]), (1, [])]), (0, [(1, [1]), (0, [0])])]"

definition p1_dofs' :: "(nat, nat) entity_dofs" where
  "p1_dofs' = [(0, [(0, [0]), (1, [1])]), (1, [(0, [3]), (1, []), (2, [5, 4])])]"

text \<open>A store with one mesh and two function spaces on it.\<close>

definition one_mesh_store :: "string work_store" where
  "one_mesh_store = [0 \<mapsto> Map.empty]"

definition space_cg :: "string work_space" where
  "space_cg = \<lparr>ws_mesh = 0, ws_ufl_element = ''CG1''\<rparr>"

definition space_dg :: "string work_space" where
  "space_dg = \<lparr>ws_mesh = 0, ws_ufl_element = ''DG0''\<rparr>"

text \<open>
  A function space data object for four nodes on an interval of three cells, with empty
  map caches; a scalar space on it and two boundary conditions, one at each end.
\<close>

definition interval_data :: "bool \<Rightarrow> function_space_data" where
  "interval_data ext =
     \<lparr>map_caches = [CellSet \<mapsto> Map.empty, InteriorFacetSet \<mapsto> Map.empty,
                     ExteriorFacetSet \<mapsto> Map.empty],
      entity_node_lists = [CellSet \<mapsto> [[0, 1], [1, 2], [2, 3]],
                           InteriorFacetSet \<mapsto> [[0, 1, 1, 2], [1, 2, 2, 3]],
                           ExteriorFacetSet \<mapsto> [[0, 1], [2, 3]]],
      node_set = op2_Set [4, 4, 4], boundary_masks = None, extruded = ext, next_ident = 0\<rparr>"

definition space_V :: space_handle where
  "space_V = \<lparr>sp_ident = 7, sp_len = 1, sp_name = ''V''\<rparr>"

definition scalar_space :: function_space where
  "scalar_space = FunctionSpace 7 1 None None"

definition bc_left :: dirichlet_bc where
  "bc_left = \<lparr>bc_hash = 42, bc_sub_domain = Markers [1], bc_method = ''topological'',
     bc_nodes = [0], bc_function_space = scalar_space\<rparr>"

definition bc_right :: dirichlet_bc where
  "bc_right = \<lparr>bc_hash = 17, bc_sub_domain = Markers [2], bc_method = ''topological'',
     bc_nodes = [3], bc_function_space = scalar_space\<rparr>"

text \<open>
  A vector space with two components on the same nodes, the proxy of its component 0,
  and boundary conditions on them.
\<close>

definition vector_space :: function_space where
  "vector_space = FunctionSpace 7 2 None None"

definition component_space :: function_space where
  "component_space = FunctionSpace 8 1 (Some 0) (Some vector_space)"

definition bc_vector :: dirichlet_bc where
  "bc_vector = \<lparr>bc_hash = 5, bc_sub_domain = Markers [2], bc_method = ''topological'',
     bc_nodes = [2, 3], bc_function_space = vector_space\<rparr>"

definition bc_component :: dirichlet_bc where
  "bc_component = \<lparr>bc_hash = 11, bc_sub_domain = Markers [1], bc_method = ''topological'',
     bc_nodes = [0, 2], bc_function_space = component_space\<rparr>"



text \<open>
  The bilinear element on the cell of an extruded interval mesh (an interval times an
  interval), for which \<^verbatim>\<open>entity_support_dofs()\<close> raises \<^verbatim>\<open>NotImplementedError\<close>.
\<close>

definition q1_element :: finat_element where
  "q1_element =
     \<lparr>fe_spatial_dimension = 2,
      fe_entity_closure_dofs =
        [([1, 1], [(0, [0, 1, 2, 3])]),
         ([0, 0], [(0, [0]), (1, [1]), (2, [2]), (3, [3])]),
         ([1, 0], [(0, [0, 2]), (1, [1, 3])]),
         ([0, 1], [(0, [0, 1]), (1, [2, 3])])],
      fe_entity_support_dofs = None\<rparr>"

section \<open>Properties\<close>

subsection \<open>Loops that may raise\<close>

lemma collect_Inr:
  "(\<And>x. x \<in> set xs \<Longrightarrow> f x = Inr (g x)) \<Longrightarrow> collect f xs = Inr (map g xs)"
  by (induction xs) simp_all

lemma collect_map: "collect f (map h ys) = collect (\<lambda>y. f (h y)) ys"
  by (induction ys) (simp_all split: sum.splits)

lemma collect_cong:
  "(\<And>x. x \<in> set xs \<Longrightarrow> f x = g x) \<Longrightarrow> collect f xs = collect g xs"
proof (induction xs)
  case Nil
  show ?case by simp
next
  case (Cons a xs)
  then have "f a = g a" "collect f xs = collect g xs" by simp_all
  then show ?case by (cases "g a") simp_all
qed

subsection \<open>The node limit\<close>

lemma node_limit_eq: "node_limit t = 2 ^ (index_bits t - 4)"
  by (simp add: node_limit_def index_bits_def push_bit_eq_mult)

text \<open>
  Claim C5, as the code has it: building the node set raises \<^verbatim>\<open>RuntimeError\<close> exactly
  when the assertion on the storage size passes, the mesh is not extruded and the total
  size of the node set is at least \<open>2 ^ (index_bits - 4)\<close>. An extruded mesh never raises
  it.
\<close>

theorem node_set_limit:
  "(get_node_set_body t mesh gn npe = Inl RuntimeError) =
     (gn = total_size (op2_Set (node_classes mesh npe)) \<and> \<not> cell_set_extruded mesh \<and>
      total_size (op2_Set (node_classes mesh npe)) \<ge> 2 ^ (index_bits t - 4))"
  by (simp add: get_node_set_body_def Let_def total_size_def op2_ExtrudedSet_def op2_Set_def
      node_limit_eq)

text \<open>
  Claim C5 as stated fails: with 4-byte indices and exactly \<open>2 ^ 28\<close> nodes on a mesh
  that is not extruded the count does not exceed \<open>2 ^ (32 - 4)\<close>, and the call raises.
\<close>

theorem node_set_limit_counterexample:
  "get_node_set_body Int32 (flat_mesh 268435456) 268435456 [1] = Inl RuntimeError \<and>
   \<not> cell_set_extruded (flat_mesh 268435456) \<and>
   \<not> (total_size (op2_Set (node_classes (flat_mesh 268435456) [1])) > 2 ^ (index_bits Int32 - 4))"
  by (simp add: get_node_set_body_def Let_def total_size_def op2_ExtrudedSet_def op2_Set_def
      node_limit_def index_bits_def flat_mesh_def)

subsection \<open>Work function limits\<close>

lemma set_all_keeps_unset:
  "set_all s calls = Inr s' \<Longrightarrow> s (ws_mesh U) = Some c \<Longrightarrow> c (ws_ufl_element U) = None \<Longrightarrow>
   list_all (\<lambda>(W, v). \<not> same_limit_key W U) calls \<Longrightarrow>
   \<exists>c'. s' (ws_mesh U) = Some c' \<and> c' (ws_ufl_element U) = None"
proof (induction calls arbitrary: s c)
  case Nil
  then show ?case by simp
next
  case (Cons a calls)
  obtain W v where a: "a = (W, v)" by (cases a)
  from Cons.prems(1) a obtain s1 where s1: "set_max_work_functions s W v = Inr s1"
    and rest: "set_all s1 calls = Inr s'"
    by (auto split: sum.splits)
  from Cons.prems(4) a have ne: "\<not> same_limit_key W U"
    and all: "list_all (\<lambda>(W, v). \<not> same_limit_key W U) calls"
    by auto
  have "\<exists>c1. s1 (ws_mesh U) = Some c1 \<and> c1 (ws_ufl_element U) = None"
    using s1 Cons.prems(2,3) ne
    by (cases "ws_mesh W = ws_mesh U")
       (auto simp: set_max_work_functions_def same_limit_key_def split: option.splits)
  then obtain c1 where "s1 (ws_mesh U) = Some c1" "c1 (ws_ufl_element U) = None" by blast
  with Cons.IH [OF rest _ _ all] show ?case by blast
qed

text \<open>
  Claim C10: after the limit is set for \<open>V\<close> on a mesh that has a shared data cache, every
  function space with the same mesh and an equal UFL element reads the value set; and a
  function space whose key no call has set, on a mesh whose dictionary started empty,
  reads the default 25.
\<close>

theorem work_limit_round_trip:
  "(store (ws_mesh V) = Some c \<longrightarrow>
      (\<exists>store'. set_max_work_functions store V val = Inr store' \<and>
         (\<forall>W. same_limit_key V W \<longrightarrow> get_max_work_functions store' W = Inr val))) \<and>
   (set_all store0 calls = Inr store1 \<and> store0 (ws_mesh U) = Some Map.empty \<and>
      list_all (\<lambda>(W, v). \<not> same_limit_key W U) calls \<longrightarrow>
      get_max_work_functions store1 U = Inr 25)"
proof (intro conjI impI)
  assume "store (ws_mesh V) = Some c"
  then show "\<exists>store'. set_max_work_functions store V val = Inr store' \<and>
         (\<forall>W. same_limit_key V W \<longrightarrow> get_max_work_functions store' W = Inr val)"
    by (auto simp: set_max_work_functions_def get_max_work_functions_def same_limit_key_def)
next
  assume "set_all store0 calls = Inr store1 \<and> store0 (ws_mesh U) = Some Map.empty \<and>
      list_all (\<lambda>(W, v). \<not> same_limit_key W U) calls"
  with set_all_keeps_unset [of store0 calls store1 U Map.empty]
  show "get_max_work_functions store1 U = Inr 25"
    by (auto simp: get_max_work_functions_def)
qed

theorem work_limit_round_trip_witness:
  "one_mesh_store (ws_mesh space_cg) = Some Map.empty \<and>
   same_limit_key space_cg space_cg \<and>
   (\<exists>store'. set_max_work_functions one_mesh_store space_cg 7 = Inr store' \<and>
      get_max_work_functions store' space_cg = Inr 7) \<and>
   (\<exists>store1. set_all one_mesh_store [(space_cg, 7)] = Inr store1 \<and>
      list_all (\<lambda>(W, v). \<not> same_limit_key W space_dg) [(space_cg, 7)] \<and>
      get_max_work_functions store1 space_dg = Inr 25)"
proof -
  have a: "one_mesh_store (ws_mesh space_cg) = Some Map.empty"
    and b: "same_limit_key space_cg space_cg"
    and b': "one_mesh_store (ws_mesh space_dg) = Some Map.empty"
    and c: "list_all (\<lambda>(W, v). \<not> same_limit_key W space_dg) [(space_cg, 7)]"
    by (simp_all add: one_mesh_store_def space_cg_def space_dg_def same_limit_key_def)
  obtain store1 where d: "set_all one_mesh_store [(space_cg, 7)] = Inr store1"
    by (simp add: set_max_work_functions_def one_mesh_store_def space_cg_def)
  from work_limit_round_trip [of one_mesh_store space_cg Map.empty 7, THEN conjunct1] a b
  have e: "\<exists>store'. set_max_work_functions one_mesh_store space_cg 7 = Inr store' \<and>
      get_max_work_functions store' space_cg = Inr 7"
    by blast
  from work_limit_round_trip [of _ _ _ _ one_mesh_store "[(space_cg, 7)]" store1 space_dg,
      THEN conjunct2] b' c d
  have "get_max_work_functions store1 space_dg = Inr 25" by blast
  with a b c d e show ?thesis by blast
qed

subsection \<open>The canonical key\<close>

lemma map_insort_key: "map f (insort_key f x xs) = insort (f x) (map f xs)"
  by (induction xs) simp_all

lemma map_sort_key: "map f (sort_key f xs) = sort (map f xs)"
  by (induction xs) (simp_all add: map_insort_key)

lemma getitem_item:
  "is_dict d \<Longrightarrow> (k, v) \<in> set d \<Longrightarrow> getitem d k = Inr v"
  by (simp add: getitem_def is_dict_def)

lemma collect_sorted_keys:
  assumes "is_dict d"
  shows "collect (getitem d) (sort (map fst d)) = Inr (map snd (sort_key fst d))"
proof -
  have "collect (getitem d) (sort (map fst d)) = collect (\<lambda>y. getitem d (fst y)) (sort_key fst d)"
    by (simp add: map_sort_key [symmetric] collect_map)
  also have "\<dots> = Inr (map snd (sort_key fst d))"
  proof (rule collect_Inr)
    fix x assume "x \<in> set (sort_key fst d)"
    then have "(fst x, snd x) \<in> set d" by simp
    with assms show "getitem d (fst x) = Inr (snd x)" by (rule getitem_item)
  qed
  finally show ?thesis .
qed

lemma sub_key_item:
  assumes "is_entity_dofs d" "(k, inner) \<in> set d"
  shows "sub_key d k = Inr (k, map snd (sort_key fst inner))"
proof -
  from assms have "getitem d k = Inr inner"
    by (simp add: is_entity_dofs_def getitem_item)
  moreover from assms have "is_dict inner"
    by (auto simp: is_entity_dofs_def list_all_iff)
  ultimately show ?thesis
    by (simp add: sub_key_def collect_sorted_keys)
qed

lemma entity_dofs_key_closed:
  assumes "is_entity_dofs d"
  shows "entity_dofs_key d = Inr (map (\<lambda>(k, inner). (k, map snd (sort_key fst inner))) (sort_key fst d))"
proof -
  have "entity_dofs_key d = collect (\<lambda>y. sub_key d (fst y)) (sort_key fst d)"
    by (simp add: entity_dofs_key_def map_sort_key [symmetric] collect_map)
  also have "\<dots> = Inr (map (\<lambda>(k, inner). (k, map snd (sort_key fst inner))) (sort_key fst d))"
  proof (rule collect_Inr)
    fix x assume "x \<in> set (sort_key fst d)"
    then have "(fst x, snd x) \<in> set d" by simp
    from sub_key_item [OF assms this]
    show "sub_key d (fst x) = Inr (case x of (k, inner) \<Rightarrow> (k, map snd (sort_key fst inner)))"
      by (simp add: case_prod_beta)
  qed
  finally show ?thesis .
qed

lemma sort_key_dict_eq:
  assumes "is_dict d" "is_dict e" "dict_eq d e"
  shows "sort_key fst d = sort_key fst e"
proof (rule sort_key_inj_key_eq)
  from assms have "distinct d" "distinct e"
    by (simp_all add: is_dict_def distinct_map)
  with assms(3) show "mset d = mset (sort_key fst e)"
    by (simp add: dict_eq_def set_eq_iff_mset_eq_distinct [symmetric])
  from assms(1) show "inj_on fst (set d)"
    by (simp add: is_dict_def distinct_map)
  show "sorted (map fst (sort_key fst e))" by simp
qed

lemma sub_key_eq:
  assumes "is_entity_dofs d" "is_entity_dofs e" "entity_dofs_eq d e" "k \<in> set (map fst d)"
  shows "sub_key d k = sub_key e k"
proof -
  from assms(4) obtain inner where a: "(k, inner) \<in> set d" by auto
  from assms(3,4) have "k \<in> set (map fst e)" by (simp add: entity_dofs_eq_def)
  then obtain inner' where b: "(k, inner') \<in> set e" by auto
  from assms(3) a b have "dict_eq inner inner'"
    by (auto simp: entity_dofs_eq_def list_all_iff)
  moreover from assms(1,2) a b have "is_dict inner" "is_dict inner'"
    by (auto simp: is_entity_dofs_def list_all_iff)
  ultimately have "sort_key fst inner = sort_key fst inner'"
    by (simp add: sort_key_dict_eq)
  with sub_key_item [OF assms(1) a] sub_key_item [OF assms(2) b] show ?thesis by simp
qed

lemma entity_dofs_key_total: "\<exists>k. entity_dofs_key d = Inr k"
proof -
  have inner: "\<exists>ys. collect (getitem i) (sort (map fst i)) = Inr ys"
    for i :: "('s::linorder \<times> int list) list"
  proof -
    have "collect (getitem i) (sort (map fst i))
        = Inr (map (\<lambda>k. the (map_of i k)) (sort (map fst i)))"
      by (rule collect_Inr)
         (auto simp: getitem_def map_of_eq_None_iff split: option.splits)
    then show ?thesis by blast
  qed
  have "collect (sub_key d) (sort (map fst d))
      = Inr (map (\<lambda>k. case sub_key d k of Inr y \<Rightarrow> y) (sort (map fst d)))"
  proof (rule collect_Inr)
    fix x assume "x \<in> set (sort (map fst d))"
    then obtain v where "map_of d x = Some v"
      by (cases "map_of d x") (auto simp: map_of_eq_None_iff)
    moreover from inner obtain ys where "collect (getitem v) (sort (map fst v)) = Inr ys"
      by blast
    ultimately show "sub_key d x = Inr (case sub_key d x of Inr y \<Rightarrow> y)"
      by (simp add: sub_key_def getitem_def)
  qed
  then show ?thesis by (auto simp: entity_dofs_key_def)
qed

text \<open>
  Claim C7: two entity-dofs dictionaries that are equal as dictionaries get the same key,
  whatever their iteration orders; the key lists the entity keys in ascending order and,
  for each, the dof lists in the order of the sub-entity keys, each dof list as it is in
  the input.
\<close>

theorem entity_dofs_key_canonical:
  assumes "is_entity_dofs d" "is_entity_dofs e" "entity_dofs_eq d e"
  shows "entity_dofs_key d = entity_dofs_key e \<and>
         entity_dofs_key d =
           Inr (map (\<lambda>(k, inner). (k, map snd (sort_key fst inner))) (sort_key fst d))"
proof
  from assms have keys: "sort (map fst d) = sort (map fst e)"
    by (intro sorted_distinct_set_unique)
       (simp_all add: is_entity_dofs_def is_dict_def entity_dofs_eq_def)
  have "collect (sub_key d) (sort (map fst d)) = collect (sub_key e) (sort (map fst d))"
    by (rule collect_cong) (simp add: sub_key_eq [OF assms])
  with keys show "entity_dofs_key d = entity_dofs_key e"
    by (simp add: entity_dofs_key_def)
  from assms(1) show "entity_dofs_key d =
           Inr (map (\<lambda>(k, inner). (k, map snd (sort_key fst inner))) (sort_key fst d))"
    by (rule entity_dofs_key_closed)
qed

theorem entity_dofs_key_canonical_witness:
  "is_entity_dofs p1_dofs \<and> is_entity_dofs p1_dofs' \<and> entity_dofs_eq p1_dofs p1_dofs' \<and>
   p1_dofs \<noteq> p1_dofs' \<and>
   entity_dofs_key p1_dofs = entity_dofs_key p1_dofs' \<and>
   entity_dofs_key p1_dofs = Inr [(0, [[0], [1]]), (1, [[3], [], [5, 4]])]"
proof -
  have a: "is_entity_dofs p1_dofs" and b: "is_entity_dofs p1_dofs'"
    by (simp_all add: is_entity_dofs_def is_dict_def p1_dofs_def p1_dofs'_def)
  have c: "entity_dofs_eq p1_dofs p1_dofs'"
    by (simp add: entity_dofs_eq_def dict_eq_def p1_dofs_def p1_dofs'_def insert_commute)
  have d: "p1_dofs \<noteq> p1_dofs'" by (simp add: p1_dofs_def p1_dofs'_def)
  note r = entity_dofs_key_canonical [OF a b c]
  have e: "map (\<lambda>(k, inner). (k, map snd (sort_key fst inner))) (sort_key fst p1_dofs)
      = [(0, [[0], [1]]), (1, [[3], [], [5, 4]])]"
    by (simp add: p1_dofs_def)
  from r [THEN conjunct2]
  have f: "entity_dofs_key p1_dofs = Inr [(0, [[0], [1]]), (1, [[3], [], [5, 4]])]"
    by (simp only: e)
  from r have g: "entity_dofs_key p1_dofs = entity_dofs_key p1_dofs'" by (rule conjunct1)
  from a b c d f g show ?thesis by (intro conjI)
qed

subsection \<open>Boundary nodes\<close>

text \<open>
  Claim C3 at its failing input: on a mesh without variable layers the subdomain
  \<^verbatim>\<open>"on_boundary"\<close> leaves the local variable \<^verbatim>\<open>indices\<close> unassigned, and both
  \<^verbatim>\<open>get_boundary_nodes\<close> and \<^verbatim>\<open>boundary_nodes\<close> raise instead of returning an array;
  nothing is cached.
\<close>

theorem on_boundary_unbound:
  "get_boundary_nodes (V\<lparr>bs_variable_layers := False\<rparr>) OnBoundary method = Inl UnboundLocalError \<and>
   boundary_nodes (V\<lparr>bs_variable_layers := False\<rparr>) Map.empty OnBoundary ''topological''
     = (Inl UnboundLocalError, Map.empty)"
proof -
  obtain k where "entity_dofs_key (bs_entity_dofs V) = Inr k"
    using entity_dofs_key_total by blast
  then show ?thesis
    by (simp add: get_boundary_nodes_def local_indices_def boundary_nodes_def
        is_top_bottom_def cached_def)
qed

subsection \<open>numpy arrays\<close>

lemma norm_index_range: "0 \<le> i \<Longrightarrow> i < int n \<Longrightarrow> norm_index n i = Inr (nat i)"
  by (simp add: norm_index_def)

lemma np_put_fun:
  "(\<And>i. i \<in> set idx \<Longrightarrow> 0 \<le> i \<and> i < int (length a)) \<Longrightarrow>
   np_put a (map (\<lambda>i. (i, g i)) idx)
     = Inr (map (\<lambda>j. if int j \<in> set idx then g (int j) else a ! j) [0..<length a])"
proof (induction idx arbitrary: a)
  case Nil
  show ?case by (simp add: map_nth)
next
  case (Cons i idx)
  have i: "0 \<le> i" "i < int (length a)" using Cons.prems [of i] by simp_all
  have rest: "\<And>k. k \<in> set idx \<Longrightarrow> 0 \<le> k \<and> k < int (length (a[nat i := g i]))"
    using Cons.prems by simp
  have "np_put a (map (\<lambda>i. (i, g i)) (i # idx)) = np_put (a[nat i := g i]) (map (\<lambda>i. (i, g i)) idx)"
    using i by (simp add: norm_index_range)
  also have "\<dots> = Inr (map (\<lambda>j. if int j \<in> set idx then g (int j) else a[nat i := g i] ! j)
                        [0..<length a])"
    using Cons.IH [OF rest] by simp
  also have "map (\<lambda>j. if int j \<in> set idx then g (int j) else a[nat i := g i] ! j) [0..<length a]
      = map (\<lambda>j. if int j \<in> set (i # idx) then g (int j) else a ! j) [0..<length a]"
    using i by (auto simp: nth_list_update)
  finally show ?case .
qed

lemma np_take_range:
  "(\<And>i. i \<in> set idx \<Longrightarrow> 0 \<le> i \<and> i < int (length a)) \<Longrightarrow>
   np_take a idx = Inr (map (\<lambda>i. a ! nat i) idx)"
  unfolding np_take_def
  by (rule collect_Inr) (simp add: take_at_def norm_index_range)

lemma searchsorted_range:
  assumes "set v \<subseteq> set a" "i \<in> set (searchsorted a v)"
  shows "0 \<le> i \<and> i < int (length a)"
proof -
  from assms(2) obtain x where x: "x \<in> set v" and i: "i = int (length (takeWhile (\<lambda>y. y < x) a))"
    by (auto simp: searchsorted_def)
  from x assms(1) have "x \<in> set a" by blast
  then have "length (takeWhile (\<lambda>y. y < x) a) < length a"
    by (induction a) auto
  with i show ?thesis by simp
qed

lemma high_bit_ok: "c \<le> nbits t \<Longrightarrow> high_bit t c = Inr (2 ^ (nbits t - c))"
  by (simp add: high_bit_def push_bit_eq_mult)

lemma or_high_bit_eq:
  assumes "\<And>i. i \<in> set idx \<Longrightarrow> 0 \<le> i \<and> i < int (length a)" "c \<le> nbits t"
  shows "or_high_bit t idx c a
     = Inr (map (\<lambda>j. if int j \<in> set idx then a ! j OR 2 ^ (nbits t - c) else a ! j)
              [0..<length a])"
proof -
  let ?v = "2 ^ (nbits t - c) :: int"
  have z: "zip idx (map (\<lambda>x. x OR ?v) (map (\<lambda>i. a ! nat i) idx))
      = map (\<lambda>i. (i, a ! nat i OR ?v)) idx"
    by (induction idx) simp_all
  have tk: "np_take a idx = Inr (map (\<lambda>i. a ! nat i) idx)"
    using assms(1) by (rule np_take_range)
  have hb: "high_bit t c = Inr ?v" using assms(2) by (rule high_bit_ok)
  have "or_high_bit t idx c a = np_put a (zip idx (map (\<lambda>x. x OR ?v) (map (\<lambda>i. a ! nat i) idx)))"
    by (simp only: or_high_bit_def tk hb sum.case)
  also have "\<dots> = np_put a (map (\<lambda>i. (i, a ! nat i OR ?v)) idx)"
    by (simp only: z)
  also have "\<dots> = Inr (map (\<lambda>j. if int j \<in> set idx then a ! nat (int j) OR ?v else a ! j)
              [0..<length a])"
    using assms(1) by (rule np_put_fun)
  finally show ?thesis by simp
qed

lemma or_high_bit_inv:
  assumes P: "list_all2 P a bcids"
    and idx: "\<And>i. i \<in> set idx \<Longrightarrow> 0 \<le> i \<and> i < int (length bcids)"
    and c: "c \<le> nbits t"
    and pres: "\<And>e n. P e n \<Longrightarrow> P (e OR 2 ^ (nbits t - c)) n"
  shows "\<exists>a'. or_high_bit t idx c a = Inr a' \<and> list_all2 P a' bcids"
proof -
  from P have len: "length a = length bcids" by (rule list_all2_lengthD)
  from P have nth: "\<And>j. j < length bcids \<Longrightarrow> P (a ! j) (bcids ! j)"
    by (simp add: list_all2_conv_all_nth)
  have "list_all2 P (map (\<lambda>j. if int j \<in> set idx then a ! j OR 2 ^ (nbits t - c) else a ! j)
              [0..<length a]) bcids"
    using len nth pres by (simp add: list_all2_conv_all_nth)
  with or_high_bit_eq [of idx a c t] idx c len show ?thesis by simp
qed

lemma fold_or_high_bit_inv:
  assumes P: "list_all2 P a bcids"
    and idx: "\<And>i. i \<in> set idx \<Longrightarrow> 0 \<le> i \<and> i < int (length bcids)"
    and c: "\<And>c. c \<in> set cs \<Longrightarrow> c \<le> nbits t"
    and pres: "\<And>e n c. c \<in> set cs \<Longrightarrow> P e n \<Longrightarrow> P (e OR 2 ^ (nbits t - c)) n"
  shows "\<exists>a'. fold_err (or_high_bit t idx) cs a = Inr a' \<and> list_all2 P a' bcids"
  using P c pres
proof (induction cs arbitrary: a)
  case Nil
  then show ?case by simp
next
  case (Cons c cs)
  from or_high_bit_inv [of P a bcids idx c t] Cons.prems idx
  obtain a1 where a1: "or_high_bit t idx c a = Inr a1" "list_all2 P a1 bcids"
    by auto
  from Cons.IH [OF a1(2)] Cons.prems(2,3)
  obtain a' where "fold_err (or_high_bit t idx) cs a1 = Inr a'" "list_all2 P a' bcids"
    by auto
  with a1 show ?case by simp
qed

subsection \<open>The loop over the boundary conditions\<close>

lemma three_le_nbits: "3 \<le> nbits t"
  by (cases t) (simp_all add: nbits_def)

lemma bc_step_inv:
  assumes P: "list_all2 P a bcids"
    and nodes: "explicit_bc bc \<Longrightarrow> set (bc_nodes bc) \<subseteq> set bcids"
    and ok: "\<not> too_many_components dec bc"
    and comp: "\<And>c. explicit_bc bc \<Longrightarrow> c \<in> set (bc_components dec bc) \<Longrightarrow> c \<le> nbits t"
    and pres: "\<And>e n c. explicit_bc bc \<Longrightarrow> c \<in> set (bc_components dec bc) \<Longrightarrow> P e n
        \<Longrightarrow> P (e OR 2 ^ (nbits t - c)) n"
  shows "\<exists>a'. bc_step t dec bcids bc a = Inr a' \<and> list_all2 P a' bcids"
proof (cases "explicit_bc bc")
  case False
  with P show ?thesis by (simp add: bc_step_def explicit_bc_def)
next
  case True
  let ?fs = "bc_function_space bc"
  let ?idx = "searchsorted bcids (bc_nodes bc)"
  have idx: "\<And>i. i \<in> set ?idx \<Longrightarrow> 0 \<le> i \<and> i < int (length bcids)"
    using nodes [OF True] by (rule searchsorted_range)
  have first: "\<exists>a1. (if dec \<and> fs_component ?fs = None then
                 (let idx = ?idx
                  in if fs_value_size ?fs > 3 then Inl ValueError
                     else fold_err (or_high_bit t idx) [0..<fs_value_size ?fs] a)
               else Inr a) = Inr a1 \<and> list_all2 P a1 bcids"
  proof (cases "dec \<and> fs_component ?fs = None")
    case False
    with P show ?thesis by auto
  next
    case d: True
    with ok True have vs: "\<not> fs_value_size ?fs > 3" by (simp add: too_many_components_def)
    from d have cs: "set [0..<fs_value_size ?fs] \<subseteq> set (bc_components dec bc)"
      by (simp add: bc_components_def)
    have "\<exists>a'. fold_err (or_high_bit t ?idx) [0..<fs_value_size ?fs] a = Inr a' \<and> list_all2 P a' bcids"
      using P idx
    proof (rule fold_or_high_bit_inv)
      fix c assume "c \<in> set [0..<fs_value_size ?fs]"
      with cs comp [OF True] show "c \<le> nbits t" by blast
    next
      fix e n c assume "c \<in> set [0..<fs_value_size ?fs]" "P e n"
      with cs pres [OF True] show "P (e OR 2 ^ (nbits t - c)) n" by blast
    qed
    with d vs show ?thesis by (simp add: Let_def)
  qed
  then obtain a1 where a1: "(if dec \<and> fs_component ?fs = None then
                 (let idx = ?idx
                  in if fs_value_size ?fs > 3 then Inl ValueError
                     else fold_err (or_high_bit t idx) [0..<fs_value_size ?fs] a)
               else Inr a) = Inr a1" and P1: "list_all2 P a1 bcids"
    by blast
  have second: "\<exists>a'. (case fs_component ?fs of None \<Rightarrow> Inr a1
                | Some c \<Rightarrow> or_high_bit t ?idx c a1) = Inr a' \<and> list_all2 P a' bcids"
  proof (cases "fs_component ?fs")
    case None
    with P1 show ?thesis by simp
  next
    case (Some c)
    then have c: "c \<in> set (bc_components dec bc)" by (simp add: bc_components_def)
    have "\<exists>a'. or_high_bit t ?idx c a1 = Inr a' \<and> list_all2 P a' bcids"
      using P1 idx comp [OF True c] pres [OF True c] by (rule or_high_bit_inv)
    with Some show ?thesis by simp
  qed
  from True a1 second show ?thesis
    by (simp add: bc_step_def explicit_bc_def Let_def)
qed

lemma bc_step_error:
  "too_many_components dec bc \<Longrightarrow> bc_step t dec bcids bc a = Inl ValueError"
  by (simp add: bc_step_def too_many_components_def explicit_bc_def Let_def)

lemma bc_loop_inv:
  assumes "list_all2 P a bcids"
    and "\<And>bc. bc \<in> set lbcs \<Longrightarrow> explicit_bc bc \<Longrightarrow> set (bc_nodes bc) \<subseteq> set bcids"
    and "\<And>bc. bc \<in> set lbcs \<Longrightarrow> \<not> too_many_components dec bc"
    and "\<And>bc c. bc \<in> set lbcs \<Longrightarrow> explicit_bc bc \<Longrightarrow> c \<in> set (bc_components dec bc) \<Longrightarrow> c \<le> nbits t"
    and "\<And>bc e n c. bc \<in> set lbcs \<Longrightarrow> explicit_bc bc \<Longrightarrow> c \<in> set (bc_components dec bc) \<Longrightarrow> P e n
        \<Longrightarrow> P (e OR 2 ^ (nbits t - c)) n"
  shows "\<exists>a'. fold_err (bc_step t dec bcids) lbcs a = Inr a' \<and> list_all2 P a' bcids"
  using assms
proof (induction lbcs arbitrary: a)
  case Nil
  then show ?case by simp
next
  case (Cons bc lbcs)
  have "\<exists>a1. bc_step t dec bcids bc a = Inr a1 \<and> list_all2 P a1 bcids"
    using Cons.prems(1)
  proof (rule bc_step_inv)
    show "explicit_bc bc \<Longrightarrow> set (bc_nodes bc) \<subseteq> set bcids"
      using Cons.prems(2) [of bc] by simp
    show "\<not> too_many_components dec bc" using Cons.prems(3) [of bc] by simp
    show "c \<le> nbits t" if "explicit_bc bc" "c \<in> set (bc_components dec bc)" for c
      using Cons.prems(4) [of bc c] that by simp
    show "P (e OR 2 ^ (nbits t - c)) n"
      if "explicit_bc bc" "c \<in> set (bc_components dec bc)" "P e n" for e n c
      using Cons.prems(5) [of bc c e n] that by simp
  qed
  then obtain a1 where a1: "bc_step t dec bcids bc a = Inr a1" "list_all2 P a1 bcids" by blast
  have "\<exists>a'. fold_err (bc_step t dec bcids) lbcs a1 = Inr a' \<and> list_all2 P a' bcids"
    using a1(2)
  proof (rule Cons.IH)
    show "set (bc_nodes b) \<subseteq> set bcids" if "b \<in> set lbcs" "explicit_bc b" for b
      using Cons.prems(2) [of b] that by simp
    show "\<not> too_many_components dec b" if "b \<in> set lbcs" for b
      using Cons.prems(3) [of b] that by simp
    show "c \<le> nbits t" if "b \<in> set lbcs" "explicit_bc b" "c \<in> set (bc_components dec b)" for b c
      using Cons.prems(4) [of b c] that by simp
    show "P (e OR 2 ^ (nbits t - c)) n"
      if "b \<in> set lbcs" "explicit_bc b" "c \<in> set (bc_components dec b)" "P e n" for b e n c
      using Cons.prems(5) [of b c e n] that by simp
  qed
  with a1(1) show ?case by simp
qed

lemma bc_loop_error:
  assumes "length a = length bcids"
    and "\<And>bc. bc \<in> set lbcs \<Longrightarrow> explicit_bc bc \<Longrightarrow> set (bc_nodes bc) \<subseteq> set bcids"
    and "\<And>bc c. bc \<in> set lbcs \<Longrightarrow> explicit_bc bc \<Longrightarrow> fs_component (bc_function_space bc) = Some c
        \<Longrightarrow> c \<le> nbits t"
    and "\<exists>bc \<in> set lbcs. too_many_components dec bc"
  shows "fold_err (bc_step t dec bcids) lbcs a = Inl ValueError"
  using assms
proof (induction lbcs arbitrary: a)
  case Nil
  then show ?case by simp
next
  case (Cons bc lbcs)
  show ?case
  proof (cases "too_many_components dec bc")
    case True
    then show ?thesis by (simp add: bc_step_error)
  next
    case False
    have "list_all2 (\<lambda>e n. True) a bcids"
      using Cons.prems(1) by (simp add: list_all2_conv_all_nth)
    then have "\<exists>a1. bc_step t dec bcids bc a = Inr a1 \<and> list_all2 (\<lambda>e n. True) a1 bcids"
    proof (rule bc_step_inv)
      show "explicit_bc bc \<Longrightarrow> set (bc_nodes bc) \<subseteq> set bcids"
        using Cons.prems(2) [of bc] by simp
      show "\<not> too_many_components dec bc" by (rule False)
      show "c \<le> nbits t" if "explicit_bc bc" "c \<in> set (bc_components dec bc)" for c
      proof (cases "fs_component (bc_function_space bc)")
        case None
        with that False have "c < 3"
          by (auto simp: bc_components_def too_many_components_def split: if_splits)
        with three_le_nbits [of t] show ?thesis by simp
      next
        case (Some c')
        with that have "c = c'" by (simp add: bc_components_def)
        with Cons.prems(3) [of bc c'] that Some show ?thesis by simp
      qed
    qed simp
    then obtain a1 where a1: "bc_step t dec bcids bc a = Inr a1" "length a1 = length bcids"
      by (auto dest: list_all2_lengthD)
    from False Cons.prems(4) have "\<exists>bc \<in> set lbcs. too_many_components dec bc" by simp
    have "fold_err (bc_step t dec bcids) lbcs a1 = Inl ValueError"
      using a1(2)
    proof (rule Cons.IH)
      show "set (bc_nodes b) \<subseteq> set bcids" if "b \<in> set lbcs" "explicit_bc b" for b
        using Cons.prems(2) [of b] that by simp
      show "c \<le> nbits t"
        if "b \<in> set lbcs" "explicit_bc b" "fs_component (bc_function_space b) = Some c" for b c
        using Cons.prems(3) [of b c] that by simp
    qed fact
    with a1(1) show ?thesis by simp
  qed
qed

subsection \<open>The packed encoding\<close>

lemma bits_split: "index_bits t - 1 = low_bits t + 3" "nbits t = low_bits t + 2"
  "index_bits t - 4 = low_bits t"
  by (cases t; simp add: index_bits_def low_bits_def nbits_def)+

lemma or_exp_bounds:
  fixes e :: int
  assumes "0 \<le> e" "e < 2 ^ (K + 3)" "K \<le> j" "j < K + 3"
  shows "0 \<le> e OR 2 ^ j" "e OR 2 ^ j < 2 ^ (K + 3)" "take_bit K (e OR 2 ^ j) = take_bit K e"
proof -
  from assms(1) show "0 \<le> e OR 2 ^ j" by simp
  have "(2::int) ^ j < 2 ^ (K + 3)" using assms(4) by (simp add: power_strict_increasing)
  with assms(1,2) show "e OR 2 ^ j < 2 ^ (K + 3)" by (intro OR_upper)
  have "take_bit K (2 ^ j :: int) = 0" using assms(3) by (simp add: take_bit_of_exp)
  then show "take_bit K (e OR 2 ^ j) = take_bit K e" by simp
qed

lemma packed_le:
  fixes e :: int
  assumes "0 \<le> e" "e < 2 ^ (K + 3)"
  shows "e \<le> take_bit K e + 7 * 2 ^ K"
proof -
  let ?q = "e div 2 ^ K"
  have lt: "e < 8 * 2 ^ K" using assms(2) by (simp add: power_add mult.commute)
  have split: "e = 2 ^ K * ?q + e mod 2 ^ K" by simp
  have r: "0 \<le> e mod 2 ^ K" by simp
  have "?q \<le> 7"
  proof (rule ccontr)
    assume "\<not> ?q \<le> 7"
    then have "8 \<le> ?q" by simp
    then have "2 ^ K * 8 \<le> 2 ^ K * ?q" by (intro mult_left_mono) simp_all
    with split r have "2 ^ K * 8 \<le> e" by linarith
    with lt show False by simp
  qed
  then have "2 ^ K * ?q \<le> 2 ^ K * 7"
    by (intro mult_left_mono) simp_all
  with split have "e \<le> e mod 2 ^ K + 7 * 2 ^ K" by linarith
  then show ?thesis by (simp only: take_bit_eq_mod)
qed

lemma wrap_id: "- (2 ^ (index_bits t - 1)) \<le> x \<Longrightarrow> x < 2 ^ (index_bits t - 1) \<Longrightarrow> wrap t x = x"
  unfolding wrap_def by (rule signed_take_bit_int_eq_self)

lemma packed_init:
  assumes "0 \<le> n" "n < 2 ^ (index_bits t - 4)"
  shows "packed t n n"
proof -
  have le: "(2::int) ^ low_bits t \<le> 2 ^ (low_bits t + 3)"
    by (rule power_increasing) simp_all
  from assms(2) have lt: "n < 2 ^ low_bits t" unfolding bits_split .
  with le have "n < 2 ^ (low_bits t + 3)" by linarith
  with assms(1) lt show ?thesis
    unfolding packed_def bits_split by (simp add: take_bit_int_eq_self)
qed

lemma packed_or:
  assumes "packed t e n" "c < 3"
  shows "packed t (e OR 2 ^ (nbits t - c)) n"
proof -
  from assms(2) have j: "low_bits t \<le> nbits t - c" "nbits t - c < low_bits t + 3"
    by (simp_all add: bits_split)
  from assms(1) have e: "0 \<le> e" "e < 2 ^ (low_bits t + 3)" "take_bit (low_bits t) e = n"
    unfolding packed_def bits_split by simp_all
  from or_exp_bounds [OF e(1,2) j] e(3) show ?thesis
    unfolding packed_def bits_split by simp
qed

lemma packed_exact:
  assumes "packed t e n" "0 \<le> n" "n + 1 < 2 ^ (index_bits t - 4)"
  shows "e + 1 < 2 ^ (index_bits t - 1)" "wrap t (e + 1) = e + 1"
    "wrap t (- (e + 1)) = - (e + 1)"
proof -
  from assms(1) have e: "0 \<le> e" "e < 2 ^ (low_bits t + 3)" "take_bit (low_bits t) e = n"
    unfolding packed_def bits_split by simp_all
  from packed_le [OF e(1,2)] e(3) have "e \<le> n + 7 * 2 ^ low_bits t" by simp
  moreover from assms(3) have "n + 1 < 2 ^ low_bits t" unfolding bits_split .
  moreover have "(2::int) ^ (low_bits t + 3) = 8 * 2 ^ low_bits t" by (simp add: power_add)
  ultimately have "e + 1 < 2 ^ (low_bits t + 3)" by linarith
  then show lt: "e + 1 < 2 ^ (index_bits t - 1)" unfolding bits_split .
  have pos: "(0::int) < 2 ^ (index_bits t - 1)" by simp
  from e(1) pos lt show "wrap t (e + 1) = e + 1" by (intro wrap_id) linarith+
  from e(1) pos lt show "wrap t (- (e + 1)) = - (e + 1)" by (intro wrap_id) linarith+
qed

lemma set_union1d: "set (union1d a b) = set a \<union> set b"
  by (simp add: union1d_def np_unique_def)

lemma set_foldl_union1d: "set (foldl union1d x xs) = set x \<union> \<Union> (set ` set xs)"
  by (induction xs arbitrary: x) (auto simp: set_union1d)

lemma reduce_union1d:
  "reduce union1d nodes = Inr bcids \<Longrightarrow> set bcids = \<Union> (set ` set nodes)"
  by (cases nodes) (auto simp: set_foldl_union1d)

lemma reduce_union1d_nodes:
  assumes "reduce union1d (map bc_nodes (filter explicit_bc lbcs)) = Inr bcids"
  shows "set bcids = constrained_nodes lbcs"
  using reduce_union1d [OF assms] by (auto simp: constrained_nodes_def)

lemma nodes_subset_constrained:
  "bc \<in> set lbcs \<Longrightarrow> explicit_bc bc \<Longrightarrow> set (bc_nodes bc) \<subseteq> constrained_nodes lbcs"
  by (auto simp: constrained_nodes_def)

lemma node_set_below_limit:
  assumes "get_node_set_body t mesh gn npe = Inr ns" "\<not> cell_set_extruded mesh"
  shows "int (total_size ns) < 2 ^ (index_bits t - 4)"
proof -
  from assms have "total_size ns < node_limit t"
    by (auto simp: get_node_set_body_def Let_def split: if_splits)
  then have "total_size ns < 2 ^ (index_bits t - 4)" by (simp only: node_limit_eq)
  then have "int (total_size ns) < int (2 ^ (index_bits t - 4))" by (simp only: of_nat_less_iff)
  then show ?thesis by simp
qed

text \<open>
  Claim C9: when the node set of a mesh that is not extruded has passed the limit of
  \<^verbatim>\<open>get_node_set\<close>, the constrained nodes are nodes of that set and every component
  bit is one of the three at the positions \<open>index_bits - 2\<close>, \<open>index_bits - 3\<close> and
  \<open>index_bits - 4\<close>, then every entry \<open>e\<close> of \<^verbatim>\<open>negids\<close> after the loop keeps its node
  in the low bits, \<open>e + 1\<close> is at most \<open>2 ^ (index_bits - 1)\<close>, \<open>- (e + 1)\<close> is negative and
  representable, and neither \<open>e + 1\<close> nor its negation wraps in the index type.
\<close>

theorem packed_encoding_exact:
  assumes ns: "get_node_set_body t mesh gn npe = Inr ns" "\<not> cell_set_extruded mesh"
    and bcids: "reduce union1d (map bc_nodes (filter explicit_bc lbcs)) = Inr bcids"
    and range: "nodes_below (total_size ns) bcids"
    and comps: "list_all (\<lambda>bc. explicit_bc bc \<longrightarrow> list_all (\<lambda>c. c < 3) (bc_components dec bc)) lbcs"
    and loop: "fold_err (bc_step t dec bcids) lbcs bcids = Inr negids"
  shows "list_all2 (\<lambda>e n. n < 2 ^ (index_bits t - 4) \<and> take_bit (index_bits t - 4) e = n \<and>
           0 \<le> e \<and> e + 1 \<le> 2 ^ (index_bits t - 1) \<and>
           - (2 ^ (index_bits t - 1)) \<le> - (e + 1) \<and> - (e + 1) < 0 \<and>
           wrap t (e + 1) = e + 1 \<and> wrap t (- (e + 1)) = - (e + 1)) negids bcids"
proof -
  have lim: "int (total_size ns) < 2 ^ (index_bits t - 4)"
    using ns by (rule node_set_below_limit)
  have n: "0 \<le> n \<and> n + 1 < 2 ^ (index_bits t - 4)" if "n \<in> set bcids" for n
  proof -
    from range that have "0 \<le> n" "n < int (total_size ns)"
      by (auto simp: nodes_below_def list_all_iff)
    with lim show ?thesis by linarith
  qed
  have sub: "set (bc_nodes bc) \<subseteq> set bcids" if "bc \<in> set lbcs" "explicit_bc bc" for bc
    using nodes_subset_constrained [OF that] reduce_union1d_nodes [OF bcids] by simp
  have c3: "c < 3" if "bc \<in> set lbcs" "explicit_bc bc" "c \<in> set (bc_components dec bc)" for bc c
    using comps that by (auto simp: list_all_iff)
  have cn: "c \<le> nbits t" if "bc \<in> set lbcs" "explicit_bc bc" "c \<in> set (bc_components dec bc)" for bc c
    using c3 [OF that] three_le_nbits [of t] by simp
  have init: "list_all2 (packed t) bcids bcids"
  proof -
    have "packed t m m" if "m \<in> set bcids" for m
    proof (rule packed_init)
      from n [OF that] show "0 \<le> m" "m < 2 ^ (index_bits t - 4)" by simp_all
    qed
    then show ?thesis by (simp add: list_all2_conv_all_nth)
  qed
  have noerr: "\<not> too_many_components dec bc" if "bc \<in> set lbcs" for bc
  proof
    assume "too_many_components dec bc"
    with that have ex: "\<exists>bc \<in> set lbcs. too_many_components dec bc" by blast
    have "fold_err (bc_step t dec bcids) lbcs bcids = Inl ValueError"
    proof (rule bc_loop_error [OF refl _ _ ex])
      show "set (bc_nodes b) \<subseteq> set bcids" if "b \<in> set lbcs" "explicit_bc b" for b
        using that by (rule sub)
      show "c \<le> nbits t"
        if "b \<in> set lbcs" "explicit_bc b" "fs_component (bc_function_space b) = Some c" for b c
        using that by (intro cn [of b]) (simp_all add: bc_components_def)
    qed
    with loop show False by simp
  qed
  have "\<exists>a'. fold_err (bc_step t dec bcids) lbcs bcids = Inr a' \<and> list_all2 (packed t) a' bcids"
    using init
  proof (rule bc_loop_inv)
    show "set (bc_nodes b) \<subseteq> set bcids" if "b \<in> set lbcs" "explicit_bc b" for b
      using that by (rule sub)
    show "\<not> too_many_components dec b" if "b \<in> set lbcs" for b using that by (rule noerr)
    show "c \<le> nbits t" if "b \<in> set lbcs" "explicit_bc b" "c \<in> set (bc_components dec b)" for b c
      using that by (rule cn)
    show "packed t (e OR 2 ^ (nbits t - c)) n"
      if "b \<in> set lbcs" "explicit_bc b" "c \<in> set (bc_components dec b)" "packed t e n" for b e n c
      using that(4) c3 [OF that(1-3)] by (rule packed_or)
  qed
  with loop have inv: "list_all2 (packed t) negids bcids" by simp
  show ?thesis
  proof (rule list.rel_mono_strong [OF inv], intro conjI)
    fix e m assume em: "e \<in> set negids" "m \<in> set bcids" "packed t e m"
    from n [OF em(2)] have m: "0 \<le> m" "m + 1 < 2 ^ (index_bits t - 4)" by simp_all
    note ex = packed_exact [OF em(3) m]
    from m show "m < 2 ^ (index_bits t - 4)" by simp
    from em(3) show "take_bit (index_bits t - 4) e = m" "0 \<le> e" by (simp_all add: packed_def)
    from ex(1) show "e + 1 \<le> 2 ^ (index_bits t - 1)" "- (2 ^ (index_bits t - 1)) \<le> - (e + 1)"
      by simp_all
    from em(3) show "- (e + 1) < 0" by (simp add: packed_def)
    from ex show "wrap t (e + 1) = e + 1" "wrap t (- (e + 1)) = - (e + 1)" by simp_all
  qed
qed

theorem packed_encoding_exact_witness:
  "get_node_set_body Int32 (flat_mesh 4) 4 [1] = Inr (op2_Set [4, 4, 4]) \<and>
   \<not> cell_set_extruded (flat_mesh 4) \<and>
   reduce union1d (map bc_nodes (filter explicit_bc [bc_vector, bc_component])) = Inr [0, 2, 3] \<and>
   nodes_below (total_size (op2_Set [4, 4, 4])) [0, 2, 3] \<and>
   list_all (\<lambda>bc. explicit_bc bc \<longrightarrow> list_all (\<lambda>c. c < 3) (bc_components True bc))
     [bc_vector, bc_component] \<and>
   fold_err (bc_step Int32 True [0, 2, 3]) [bc_vector, bc_component] [0, 2, 3]
     = Inr [1073741824, 1610612738, 1610612739] \<and>
   list_all2 (\<lambda>e n. n < 2 ^ (index_bits Int32 - 4) \<and> take_bit (index_bits Int32 - 4) e = n \<and>
           0 \<le> e \<and> e + 1 \<le> 2 ^ (index_bits Int32 - 1) \<and>
           - (2 ^ (index_bits Int32 - 1)) \<le> - (e + 1) \<and> - (e + 1) < 0 \<and>
           wrap Int32 (e + 1) = e + 1 \<and> wrap Int32 (- (e + 1)) = - (e + 1))
     [1073741824, 1610612738, 1610612739] [0, 2, 3]"
proof -
  have a: "get_node_set_body Int32 (flat_mesh 4) 4 [1] = Inr (op2_Set [4, 4, 4])"
    by (simp add: get_node_set_body_def flat_mesh_def Let_def total_size_def op2_Set_def node_limit_def)
  have b: "\<not> cell_set_extruded (flat_mesh 4)" by (simp add: flat_mesh_def)
  have c: "reduce union1d (map bc_nodes (filter explicit_bc [bc_vector, bc_component])) = Inr [0, 2, 3]"
    by (simp add: explicit_bc_def is_top_bottom_def bc_vector_def bc_component_def union1d_def
        np_unique_def)
  have d: "nodes_below (total_size (op2_Set [4, 4, 4])) [0, 2, 3]"
    by (simp add: nodes_below_def total_size_def op2_Set_def)
  have e: "list_all (\<lambda>bc. explicit_bc bc \<longrightarrow> list_all (\<lambda>c. c < 3) (bc_components True bc))
     [bc_vector, bc_component]"
    by (simp add: bc_components_def bc_vector_def bc_component_def vector_space_def
        component_space_def Let_def list_all_iff)
  have f: "fold_err (bc_step Int32 True [0, 2, 3]) [bc_vector, bc_component] [0, 2, 3]
     = Inr [1073741824, 1610612738, 1610612739]"
    by (simp add: bc_step_def is_top_bottom_def bc_vector_def bc_component_def vector_space_def
        component_space_def Let_def searchsorted_def or_high_bit_def np_take_def take_at_def
        norm_index_def high_bit_def nbits_def upt_rec [of 0] upt_rec [of "Suc 0"] upt_rec [of 2])
  from packed_encoding_exact [OF a b c d e f] a b c d e f show ?thesis by blast
qed

subsection \<open>The values of a map\<close>

lemma length_arange [simp]: "length (arange n) = n"
  by (simp add: arange_def)

lemma nth_arange [simp]: "j < n \<Longrightarrow> arange n ! j = int j"
  by (simp add: arange_def)

lemma lookup_table:
  assumes b: "\<And>i. i \<in> set bcids \<Longrightarrow> 0 \<le> i \<and> i < int N"
    and e: "list_all (nodes_below N) enl"
  shows "(case np_put (arange N) (map (\<lambda>i. (i, g i)) bcids) of
            Inl e \<Rightarrow> Inl e
          | Inr tbl \<Rightarrow> collect (np_take tbl) enl)
         = Inr (map (map (\<lambda>n. if n \<in> set bcids then g n else n)) enl)"
proof -
  let ?tbl = "map (\<lambda>j. if int j \<in> set bcids then g (int j) else arange N ! j) [0..<N]"
  have put: "np_put (arange N) (map (\<lambda>i. (i, g i)) bcids) = Inr ?tbl"
    using np_put_fun [of bcids "arange N" g] b by simp
  have "collect (np_take ?tbl) enl = Inr (map (map (\<lambda>n. if n \<in> set bcids then g n else n)) enl)"
  proof (rule collect_Inr)
    fix row assume "row \<in> set enl"
    with e have r: "\<And>n. n \<in> set row \<Longrightarrow> 0 \<le> n \<and> n < int N"
      by (auto simp: list_all_iff nodes_below_def)
    then have "np_take ?tbl row = Inr (map (\<lambda>i. ?tbl ! nat i) row)"
      by (intro np_take_range) simp
    also have "map (\<lambda>i. ?tbl ! nat i) row = map (\<lambda>n. if n \<in> set bcids then g n else n) row"
      using r by (intro map_cong refl) (auto simp: nat_less_iff)
    finally show "np_take ?tbl row = Inr (map (\<lambda>n. if n \<in> set bcids then g n else n) row)" .
  qed
  with put show ?thesis by simp
qed

lemma constrained_values_extruded:
  assumes "extruded self" "filter explicit_bc lbcs \<noteq> []"
    and "reduce union1d (map bc_nodes (filter explicit_bc lbcs)) = Inr bcids"
    and "fold_err (bc_step t (any_component lbcs) bcids) lbcs bcids = Inr negids"
    and "\<And>i. i \<in> set bcids \<Longrightarrow> 0 \<le> i \<and> i < int (total_size (node_set self))"
    and "list_all (nodes_below (total_size (node_set self))) enl"
  shows "constrained_values t self lbcs enl
         = Inr (map (map (\<lambda>n. if n \<in> set bcids then - 10000000 else n)) enl)"
  using assms(1-4) lookup_table [OF assms(5,6), where g = "\<lambda>i. - 10000000"]
  by (simp add: constrained_values_def Let_def explicit_bc_def [abs_def])

lemma constrained_values_flat:
  assumes "\<not> extruded self" "filter explicit_bc lbcs \<noteq> []"
    and "reduce union1d (map bc_nodes (filter explicit_bc lbcs)) = Inr bcids"
    and "fold_err (bc_step t (any_component lbcs) bcids) lbcs bcids = Inr bcids"
    and "\<And>i. i \<in> set bcids \<Longrightarrow> 0 \<le> i \<and> i < int (total_size (node_set self))"
    and "list_all (nodes_below (total_size (node_set self))) enl"
  shows "constrained_values t self lbcs enl
         = Inr (map (map (\<lambda>n. if n \<in> set bcids then wrap t (- wrap t (n + 1)) else n)) enl)"
proof -
  have z: "zip bcids (map (\<lambda>x. wrap t (- wrap t (x + 1))) bcids)
      = map (\<lambda>i. (i, wrap t (- wrap t (i + 1)))) bcids"
    by (induction bcids) simp_all
  show ?thesis
    using assms(1-4) lookup_table [OF assms(5,6), where g = "\<lambda>i. wrap t (- wrap t (i + 1))"]
    by (simp add: constrained_values_def Let_def explicit_bc_def [abs_def] z)
qed

lemma reduce_nonempty: "nodes \<noteq> [] \<Longrightarrow> \<exists>r. reduce f nodes = Inr r"
  by (cases nodes) simp_all


lemma get_map_miss_values:
  assumes "sp_len V = 1" "entity_node_lists self es = Some enl" "map_caches self es = Some cache"
    and "check_function_spaces V (fst (split_bcs bcs)) = Inr ()"
    and "cache (sort_key bc_hash (fst (split_bcs bcs))) = None"
    and "constrained_values t self (sort_key bc_hash (fst (split_bcs bcs))) enl = Inr vals"
  shows "\<exists>m self'. get_map t self V es arity bcs name offset parent = Inr (m, self') \<and>
           map_values m = vals"
  using assms
  by (cases "snd (split_bcs bcs)")
     (simp_all add: get_map_def Let_def decorate_vector_index_def decorate_implicit_bcs_def)

lemma cache_ok_empty:
  "(\<And>es cache. map_caches self es = Some cache \<Longrightarrow> cache = Map.empty) \<Longrightarrow> cache_ok t self"
  by (auto simp: cache_ok_def)

lemma constrained_values_state:
  assumes "node_set self' = node_set self" "extruded self' = extruded self"
  shows "constrained_values t self' = constrained_values t self"
proof (intro ext)
  fix lbcs enl
  show "constrained_values t self' lbcs enl = constrained_values t self lbcs enl"
    unfolding constrained_values_def assms by (rule refl)
qed

lemma get_map_values:
  assumes V: "sp_len V = 1" and enl: "entity_node_lists self es = Some enl"
    and cache: "map_caches self es = Some cache"
    and check: "check_function_spaces V (fst (split_bcs bcs)) = Inr ()"
    and ok: "cache_ok t self"
    and vals: "constrained_values t self (sort_key bc_hash (fst (split_bcs bcs))) enl = Inr vals"
  shows "\<exists>m self'. get_map t self V es arity bcs name offset parent = Inr (m, self') \<and>
           map_values m = vals"
proof (cases "cache (sort_key bc_hash (fst (split_bcs bcs)))")
  case None
  from V enl cache check None vals show ?thesis by (rule get_map_miss_values)
next
  case (Some val)
  with ok cache enl vals have "map_values val = vals" by (auto simp: cache_ok_def)
  with V enl cache check Some show ?thesis
    by (cases "snd (split_bcs bcs)")
       (simp_all add: get_map_def Let_def decorate_implicit_bcs_def)
qed

lemma get_map_cache_ok:
  assumes "get_map t self V es arity bcs name offset parent = Inr (m, self')" "cache_ok t self"
  shows "cache_ok t self'"
proof -
  let ?b = "fst (split_bcs bcs)"
  let ?lbcs = "sort_key bc_hash ?b"
  from assms(1) have V: "sp_len V = 1"
    by (simp add: get_map_def split: if_splits)
  from assms(1) V obtain enl where enl: "entity_node_lists self es = Some enl"
    by (cases "entity_node_lists self es") (simp_all add: get_map_def)
  from assms(1) V enl have check: "check_function_spaces V ?b = Inr ()"
    by (cases "check_function_spaces V ?b") (simp_all add: get_map_def Let_def)
  from assms(1) V enl check obtain cache where cache: "map_caches self es = Some cache"
    by (cases "map_caches self es") (simp_all add: get_map_def Let_def)
  show ?thesis
  proof (cases "cache ?lbcs")
    case (Some val)
    have same: "map_caches self' = map_caches self" "entity_node_lists self' = entity_node_lists self"
      "node_set self' = node_set self" "extruded self' = extruded self"
      using assms(1) V enl check cache Some
      by (cases "snd (split_bcs bcs)"; auto simp: get_map_def Let_def)+
    from assms(2) show ?thesis
      unfolding cache_ok_def same constrained_values_state [OF same(3,4)] .
  next
    case None
    with assms(1) V enl check cache obtain vals
      where vals: "constrained_values t self ?lbcs enl = Inr vals"
      by (cases "constrained_values t self ?lbcs enl") (simp_all add: get_map_def Let_def)
    let ?val0 = "\<lparr>map_ident = next_ident self, map_iterset = es,
                  map_toset = node_set self, map_arity = arity,
                  map_values = vals, map_name = sp_name V @ ''_'' @ name,
                  map_offset = offset, map_parent = parent,
                  map_boundary_masks = boundary_masks self,
                  map_vector_index = False, map_implicit_bcs = None\<rparr>"
    define val where "val = (if any_component ?lbcs
        then decorate_vector_index (next_ident self + 1) ?val0 else ?val0)"
    have val: "map_values val = vals"
      by (simp add: val_def decorate_vector_index_def)
    have same: "map_caches self' = (map_caches self)(es \<mapsto> cache(?lbcs \<mapsto> val))"
        "entity_node_lists self' = entity_node_lists self"
        "node_set self' = node_set self" "extruded self' = extruded self"
      using assms(1) V enl check cache None vals
      by (cases "snd (split_bcs bcs)"; auto simp: get_map_def Let_def val_def)+
    show ?thesis
      unfolding cache_ok_def same(1,2) constrained_values_state [OF same(3,4)]
    proof (intro allI impI)
      fix es' cache' key m' enl'
      assume a: "((map_caches self)(es \<mapsto> cache(?lbcs \<mapsto> val))) es' = Some cache'"
        and b: "cache' key = Some m'" and c: "entity_node_lists self es' = Some enl'"
      show "constrained_values t self key enl' = Inr (map_values m')"
      proof (cases "es' = es \<and> key = ?lbcs")
        case True
        with a b c enl have "m' = val" "enl' = enl" by auto
        with True vals val show ?thesis by simp
      next
        case False
        with a b cache have "\<exists>cache0. map_caches self es' = Some cache0 \<and> cache0 key = Some m'"
          by (auto split: if_splits)
        with assms(2) c show ?thesis by (auto simp: cache_ok_def)
      qed
    qed
  qed
qed

lemma fold_err_id: "(\<And>x s. x \<in> set xs \<Longrightarrow> f x s = Inr s) \<Longrightarrow> fold_err f xs s = Inr s"
  by (induction xs) simp_all

lemma split_bcs_explicit:
  "filter explicit_bc bcs \<noteq> [] \<Longrightarrow> fst (split_bcs (Some bcs)) = bcs"
  by (simp add: split_bcs_def Let_def explicit_bc_def [abs_def])

lemma split_bcs_no_implicit:
  "list_all explicit_bc bcs \<Longrightarrow> split_bcs (Some bcs) = (bcs, None)"
  by (cases bcs) (auto simp: split_bcs_def Let_def explicit_bc_def [abs_def] list_all_iff filter_empty_conv)

lemma check_function_spaces_ok:
  "list_all (\<lambda>bc. fs_topological (unwind_proxy (bc_function_space bc)) = sp_ident V) bcs
   \<Longrightarrow> check_function_spaces V bcs = Inr ()"
  by (auto simp: check_function_spaces_def list_all_iff list_ex_iff)

lemma any_component_sort [simp]: "any_component (sort_key f bcs) = any_component bcs"
  by (simp add: any_component_def list_ex_iff)

lemma constrained_nodes_sort [simp]: "constrained_nodes (sort_key f bcs) = constrained_nodes bcs"
  by (simp add: constrained_nodes_def)

lemma filter_sort_nonempty:
  "filter P bcs \<noteq> [] \<Longrightarrow> filter P (sort_key f bcs) \<noteq> []"
  by (simp add: filter_empty_conv)

lemma bc_step_no_component:
  "fs_component (bc_function_space bc) = None \<Longrightarrow> bc_step t False bcids bc a = Inr a"
  by (simp add: bc_step_def Let_def)

text \<open>
  Claim C1: on a mesh that is not extruded, with a non-empty list of explicit boundary
  conditions on spaces without a component, \<^verbatim>\<open>get_map\<close> returns a map, new or cached,
  whose values are the entity-node list with every constrained node \<open>n\<close> replaced by
  \<open>- (n + 1)\<close> and every other entry unchanged; negating a negative entry and subtracting
  1 gives the entity-node list back.
\<close>

theorem scalar_map_values:
  assumes V: "sp_len V = 1"
    and enl: "entity_node_lists self es = Some enl"
    and cache: "map_caches self es = Some cache"
    and ok: "cache_ok t self"
    and flat: "\<not> extruded self"
    and lim: "total_size (node_set self) < node_limit t"
    and ne: "bcs \<noteq> []"
    and bcs: "list_all (\<lambda>bc. explicit_bc bc \<and> fs_component (bc_function_space bc) = None \<and>
                fs_topological (bc_function_space bc) = sp_ident V \<and>
                nodes_below (total_size (node_set self)) (bc_nodes bc)) bcs"
    and rows: "list_all (nodes_below (total_size (node_set self))) enl"
  shows "\<exists>m self'. get_map t self V es arity (Some bcs) name offset parent = Inr (m, self') \<and>
           map_values m = map (map (\<lambda>n. if n \<in> constrained_nodes bcs then - (n + 1) else n)) enl \<and>
           map (map (\<lambda>x. if x < 0 then - x - 1 else x)) (map_values m) = enl"
proof -
  let ?N = "total_size (node_set self)"
  let ?lbcs = "sort_key bc_hash bcs"
  from bcs have all_explicit: "list_all explicit_bc bcs" by (simp add: list_all_iff)
  from ne all_explicit have fne: "filter explicit_bc bcs \<noteq> []"
    by (cases bcs) (auto simp: list_all_iff)
  have split: "fst (split_bcs (Some bcs)) = bcs" using fne by (rule split_bcs_explicit)
  have unwind: "unwind_proxy fs = fs" if "fs_component fs = None" for fs
    using that by (cases fs) simp
  have check: "check_function_spaces V bcs = Inr ()"
    using bcs by (intro check_function_spaces_ok) (auto simp: list_all_iff unwind)
  have nodec: "\<not> any_component ?lbcs"
    using bcs by (auto simp: any_component_def list_all_iff list_ex_iff)
  obtain bcids where bcids: "reduce union1d (map bc_nodes (filter explicit_bc ?lbcs)) = Inr bcids"
    using reduce_nonempty [of "map bc_nodes (filter explicit_bc ?lbcs)" union1d]
      filter_sort_nonempty [OF fne] by auto
  have set_bcids: "set bcids = constrained_nodes bcs"
    using reduce_union1d_nodes [OF bcids] by simp
  have range: "0 \<le> i \<and> i < int ?N" if "i \<in> set bcids" for i
    using that bcs unfolding set_bcids
    by (auto simp: constrained_nodes_def list_all_iff nodes_below_def)
  have loop: "fold_err (bc_step t (any_component ?lbcs) bcids) ?lbcs bcids = Inr bcids"
  proof (rule fold_err_id)
    fix bc s assume "bc \<in> set ?lbcs"
    with bcs have "fs_component (bc_function_space bc) = None" by (simp add: list_all_iff)
    with nodec show "bc_step t (any_component ?lbcs) bcids bc s = Inr s"
      by (simp add: bc_step_no_component)
  qed
  have vals: "constrained_values t self ?lbcs enl
      = Inr (map (map (\<lambda>n. if n \<in> set bcids then wrap t (- wrap t (n + 1)) else n)) enl)"
    using flat filter_sort_nonempty [OF fne] bcids loop range rows
    by (rule constrained_values_flat)
  have limit: "int ?N < 2 ^ (index_bits t - 4)"
  proof -
    from lim have "?N < 2 ^ (index_bits t - 4)" by (simp only: node_limit_eq)
    then have "int ?N < int (2 ^ (index_bits t - 4))" by (simp only: of_nat_less_iff)
    then show ?thesis by simp
  qed
  have exact: "wrap t (- wrap t (n + 1)) = - (n + 1)" if "n \<in> set bcids" for n
  proof -
    from range [OF that] limit have n: "0 \<le> n" "n + 1 < 2 ^ (index_bits t - 4)" by linarith+
    then have "packed t n n" by (intro packed_init) linarith+
    from packed_exact(2,3) [OF this n] show ?thesis by simp
  qed
  have vals': "constrained_values t self ?lbcs enl
      = Inr (map (map (\<lambda>n. if n \<in> constrained_nodes bcs then - (n + 1) else n)) enl)"
    unfolding vals set_bcids [symmetric]
    by (simp add: exact cong: if_cong)
  from get_map_values [of V self es enl cache "Some bcs" t, unfolded split, OF V enl cache check ok vals']
  obtain m self' where m: "get_map t self V es arity (Some bcs) name offset parent = Inr (m, self')"
    "map_values m = map (map (\<lambda>n. if n \<in> constrained_nodes bcs then - (n + 1) else n)) enl"
    by blast
  have "map (map (\<lambda>x. if x < 0 then - x - 1 else x)) (map_values m) = enl"
  proof -
    let ?f = "\<lambda>x::int. if x < 0 then - x - 1 else x"
    let ?g = "\<lambda>n. if n \<in> constrained_nodes bcs then - (n + 1) else n"
    have row: "map (?f \<circ> ?g) row = row" if "row \<in> set enl" for row
    proof -
      from rows that have nn: "\<forall>n \<in> set row. 0 \<le> n"
        by (auto simp: list_all_iff nodes_below_def)
      show ?thesis
      proof (rule map_idI)
        fix x assume "x \<in> set row"
        with nn have "0 \<le> x" by blast
        then show "(?f \<circ> ?g) x = x" by simp
      qed
    qed
    have "map (map ?f \<circ> map ?g) enl = enl"
      by (rule map_idI) (simp add: row)
    then show ?thesis unfolding m(2) by simp
  qed
  with m show ?thesis by blast
qed

theorem scalar_map_values_witness:
  "sp_len space_V = 1 \<and>
   entity_node_lists (interval_data False) CellSet = Some [[0, 1], [1, 2], [2, 3]] \<and>
   cache_ok Int32 (interval_data False) \<and> \<not> extruded (interval_data False) \<and>
   total_size (node_set (interval_data False)) < node_limit Int32 \<and>
   (\<exists>m self'. get_map Int32 (interval_data False) space_V CellSet 2 (Some [bc_left, bc_right])
        ''cell_node'' None None = Inr (m, self') \<and>
      map_values m = [[- 1, 1], [1, 2], [2, - 4]] \<and>
      map (map (\<lambda>x. if x < 0 then - x - 1 else x)) (map_values m) = [[0, 1], [1, 2], [2, 3]])"
proof -
  have a: "sp_len space_V = 1" by (simp add: space_V_def)
  have b: "entity_node_lists (interval_data False) CellSet = Some [[0, 1], [1, 2], [2, 3]]"
    by (simp add: interval_data_def)
  have c: "map_caches (interval_data False) CellSet = Some Map.empty"
    by (simp add: interval_data_def)
  have d: "cache_ok Int32 (interval_data False)"
    by (rule cache_ok_empty) (auto simp: interval_data_def split: if_splits)
  have e: "\<not> extruded (interval_data False)" by (simp add: interval_data_def)
  have f: "total_size (node_set (interval_data False)) < node_limit Int32"
    by (simp add: interval_data_def total_size_def op2_Set_def node_limit_def)
  have g: "[bc_left, bc_right] \<noteq> []" by simp
  have h: "list_all (\<lambda>bc. explicit_bc bc \<and> fs_component (bc_function_space bc) = None \<and>
                fs_topological (bc_function_space bc) = sp_ident space_V \<and>
                nodes_below (total_size (node_set (interval_data False))) (bc_nodes bc))
              [bc_left, bc_right]"
    by (simp add: explicit_bc_def is_top_bottom_def bc_left_def bc_right_def scalar_space_def
        space_V_def nodes_below_def interval_data_def total_size_def op2_Set_def)
  have i: "list_all (nodes_below (total_size (node_set (interval_data False))))
              [[0, 1], [1, 2], [2, 3]]"
    by (simp add: nodes_below_def interval_data_def total_size_def op2_Set_def)
  have j: "constrained_nodes [bc_left, bc_right] = {0, 3}"
    by (auto simp: constrained_nodes_def explicit_bc_def is_top_bottom_def bc_left_def bc_right_def)
  from scalar_map_values [OF a b c d e f g h i, of 2 "''cell_node''" None None]
  have "\<exists>m self'. get_map Int32 (interval_data False) space_V CellSet 2 (Some [bc_left, bc_right])
        ''cell_node'' None None = Inr (m, self') \<and>
      map_values m = [[- 1, 1], [1, 2], [2, - 4]] \<and>
      map (map (\<lambda>x. if x < 0 then - x - 1 else x)) (map_values m) = [[0, 1], [1, 2], [2, 3]]"
    unfolding j by simp
  with a b d e f show ?thesis by blast
qed

lemma explicit_sorted_nodes:
  assumes "reduce union1d (map bc_nodes (filter explicit_bc (sort_key f bcs))) = Inr bcids"
    and "bc \<in> set bcs" "explicit_bc bc"
  shows "set (bc_nodes bc) \<subseteq> set bcids"
  using nodes_subset_constrained [OF assms(2,3)] reduce_union1d_nodes [OF assms(1)] by simp

text \<open>
  Claim C4: on an extruded mesh \<^verbatim>\<open>get_map\<close> with at least one explicit boundary
  condition returns a map, new or cached, whose values are the entity-node list with every
  constrained node replaced by the one value \<open>- 10000000\<close>, whatever components the
  boundary conditions carry, and every other entry unchanged. The call returns when every
  boundary condition is on the space of the call, no boundary condition makes the loop
  raise, and the nodes lie in the node set.
\<close>

theorem extruded_sentinel:
  assumes V: "sp_len V = 1"
    and enl: "entity_node_lists self es = Some enl"
    and cache: "map_caches self es = Some cache"
    and ok: "cache_ok t self"
    and ext: "extruded self"
    and fne: "filter explicit_bc bcs \<noteq> []"
    and targets: "list_all (\<lambda>bc. fs_topological (unwind_proxy (bc_function_space bc)) = sp_ident V) bcs"
    and wf: "list_all (\<lambda>bc. \<not> too_many_components (any_component bcs) bc \<and>
                list_all (\<lambda>c. c \<le> nbits t) (bc_components (any_component bcs) bc)) bcs"
    and range: "list_all (\<lambda>bc. nodes_below (total_size (node_set self)) (bc_nodes bc))
                  (filter explicit_bc bcs)"
    and rows: "list_all (nodes_below (total_size (node_set self))) enl"
  shows "\<exists>m self'. get_map t self V es arity (Some bcs) name offset parent = Inr (m, self') \<and>
           map_values m = map (map (\<lambda>n. if n \<in> constrained_nodes bcs then - 10000000 else n)) enl"
proof -
  let ?lbcs = "sort_key bc_hash bcs"
  let ?dec = "any_component ?lbcs"
  have split: "fst (split_bcs (Some bcs)) = bcs" using fne by (rule split_bcs_explicit)
  have check: "check_function_spaces V bcs = Inr ()"
    using targets by (rule check_function_spaces_ok)
  obtain bcids where bcids: "reduce union1d (map bc_nodes (filter explicit_bc ?lbcs)) = Inr bcids"
    using reduce_nonempty [of "map bc_nodes (filter explicit_bc ?lbcs)" union1d]
      filter_sort_nonempty [OF fne] by auto
  have set_bcids: "set bcids = constrained_nodes bcs"
    using reduce_union1d_nodes [OF bcids] by simp
  have inrange: "0 \<le> i \<and> i < int (total_size (node_set self))" if "i \<in> set bcids" for i
    using that range unfolding set_bcids
    by (auto simp: constrained_nodes_def list_all_iff nodes_below_def)
  have "list_all2 (\<lambda>e n. True) bcids bcids" by (simp add: list_all2_conv_all_nth)
  then have "\<exists>a'. fold_err (bc_step t ?dec bcids) ?lbcs bcids = Inr a' \<and>
      list_all2 (\<lambda>e n. True) a' bcids"
  proof (rule bc_loop_inv)
    show "set (bc_nodes b) \<subseteq> set bcids" if "b \<in> set ?lbcs" "explicit_bc b" for b
      using that explicit_sorted_nodes [OF bcids] by simp
    show "\<not> too_many_components ?dec b" if "b \<in> set ?lbcs" for b
      using wf that by (simp add: list_all_iff)
    show "c \<le> nbits t" if "b \<in> set ?lbcs" "explicit_bc b" "c \<in> set (bc_components ?dec b)" for b c
      using wf that by (simp add: list_all_iff)
  qed simp
  then obtain negids where loop: "fold_err (bc_step t ?dec bcids) ?lbcs bcids = Inr negids"
    by blast
  have "constrained_values t self ?lbcs enl
      = Inr (map (map (\<lambda>n. if n \<in> set bcids then - 10000000 else n)) enl)"
    using ext filter_sort_nonempty [OF fne] bcids loop inrange rows
    by (rule constrained_values_extruded)
  then have vals: "constrained_values t self ?lbcs enl
      = Inr (map (map (\<lambda>n. if n \<in> constrained_nodes bcs then - 10000000 else n)) enl)"
    unfolding set_bcids .
  from get_map_values [of V self es enl cache "Some bcs" t, unfolded split,
      OF V enl cache check ok vals]
  show ?thesis .
qed


lemma interval_data_simps:
  "entity_node_lists (interval_data ext) CellSet = Some [[0, 1], [1, 2], [2, 3]]"
  "map_caches (interval_data ext) CellSet = Some Map.empty"
  "extruded (interval_data ext) = ext"
  "total_size (node_set (interval_data ext)) = 4"
  by (simp_all add: interval_data_def total_size_def op2_Set_def)

theorem extruded_sentinel_witness:
  "extruded (interval_data True) \<and> cache_ok Int32 (interval_data True) \<and>
   filter explicit_bc [bc_vector, bc_component] \<noteq> [] \<and>
   any_component [bc_vector, bc_component] \<and>
   (\<exists>m self'. get_map Int32 (interval_data True) space_V CellSet 2
        (Some [bc_vector, bc_component]) ''cell_node'' None None = Inr (m, self') \<and>
      map_values m = [[- 10000000, 1], [1, - 10000000], [- 10000000, - 10000000]])"
proof -
  have a: "sp_len space_V = 1" by (simp add: space_V_def)
  have d: "cache_ok Int32 (interval_data True)"
    by (rule cache_ok_empty) (auto simp: interval_data_def split: if_splits)
  have e: "extruded (interval_data True)" by (simp add: interval_data_simps)
  have f: "filter explicit_bc [bc_vector, bc_component] \<noteq> []"
    by (simp add: explicit_bc_def is_top_bottom_def bc_vector_def)
  have dec: "any_component [bc_vector, bc_component]"
    by (simp add: any_component_def bc_component_def component_space_def)
  have g: "list_all (\<lambda>bc. fs_topological (unwind_proxy (bc_function_space bc)) = sp_ident space_V)
      [bc_vector, bc_component]"
    by (simp add: bc_vector_def bc_component_def vector_space_def component_space_def space_V_def)
  have h: "list_all (\<lambda>bc. \<not> too_many_components (any_component [bc_vector, bc_component]) bc \<and>
                list_all (\<lambda>c. c \<le> nbits Int32)
                  (bc_components (any_component [bc_vector, bc_component]) bc))
      [bc_vector, bc_component]"
    unfolding dec [THEN eqTrueI]
    by (simp add: too_many_components_def bc_components_def bc_vector_def bc_component_def
        vector_space_def component_space_def nbits_def Let_def list_all_iff)
  have i: "list_all (\<lambda>bc. nodes_below (total_size (node_set (interval_data True))) (bc_nodes bc))
                  (filter explicit_bc [bc_vector, bc_component])"
    by (simp add: interval_data_simps nodes_below_def explicit_bc_def is_top_bottom_def
        bc_vector_def bc_component_def)
  have j: "list_all (nodes_below (total_size (node_set (interval_data True))))
      [[0, 1], [1, 2], [2, 3]]"
    by (simp add: interval_data_simps nodes_below_def)
  have k: "constrained_nodes [bc_vector, bc_component] = {0, 2, 3}"
    by (auto simp: constrained_nodes_def explicit_bc_def is_top_bottom_def bc_vector_def
        bc_component_def)
  from extruded_sentinel [OF a interval_data_simps(1,2) d e f g h i j, of 2 "''cell_node''" None None]
  have "\<exists>m self'. get_map Int32 (interval_data True) space_V CellSet 2
        (Some [bc_vector, bc_component]) ''cell_node'' None None = Inr (m, self') \<and>
      map_values m = [[- 10000000, 1], [1, - 10000000], [- 10000000, - 10000000]]"
    unfolding k by simp
  with d e f dec show ?thesis by blast
qed



subsection \<open>The map cache\<close>

lemma get_map_hit:
  assumes "sp_len V = 1" "entity_node_lists self es = Some enl"
    and "split_bcs bcs = (b, None)"
    and "check_function_spaces V b = Inr ()"
    and "map_caches self es = Some cache" "cache (sort_key bc_hash b) = Some m"
  shows "get_map t self V es arity bcs name offset parent = Inr (m, self)"
  using assms by (simp add: get_map_def Let_def)

lemma get_map_stored:
  assumes "split_bcs bcs = (b, None)"
    and "get_map t self V es arity bcs name offset parent = Inr (m, self')"
  shows "sp_len V = 1 \<and> (\<exists>enl. entity_node_lists self' es = Some enl) \<and>
         check_function_spaces V b = Inr () \<and>
         (\<exists>cache'. map_caches self' es = Some cache' \<and> cache' (sort_key bc_hash b) = Some m)"
proof -
  from assms(2) have V: "sp_len V = 1"
    by (simp add: get_map_def split: if_splits)
  from assms(2) V obtain enl where enl: "entity_node_lists self es = Some enl"
    by (cases "entity_node_lists self es") (simp_all add: get_map_def)
  from assms V enl have check: "check_function_spaces V b = Inr ()"
    by (cases "check_function_spaces V b") (simp_all add: get_map_def Let_def)
  from assms V enl check obtain cache where cache: "map_caches self es = Some cache"
    by (cases "map_caches self es") (simp_all add: get_map_def Let_def)
  show ?thesis
  proof (cases "cache (sort_key bc_hash b)")
    case (Some val)
    with assms V enl check cache have "m = val" "self' = self"
      by (simp_all add: get_map_def Let_def)
    with V enl check cache Some show ?thesis by simp
  next
    case None
    with assms V enl check cache obtain vals
      where "constrained_values t self (sort_key bc_hash b) enl = Inr vals"
      by (cases "constrained_values t self (sort_key bc_hash b) enl")
         (simp_all add: get_map_def Let_def)
    with assms V enl check cache None
    have "entity_node_lists self' es = Some enl \<and>
          (\<exists>cache'. map_caches self' es = Some cache' \<and> cache' (sort_key bc_hash b) = Some m)"
      by (auto simp: get_map_def Let_def)
    with V check show ?thesis by blast
  qed
qed

lemma check_function_spaces_set:
  "set bcs1 = set bcs2 \<Longrightarrow> check_function_spaces V bcs1 = check_function_spaces V bcs2"
  by (simp add: check_function_spaces_def list_ex_iff)

text \<open>
  Claim C2: when a call of \<^verbatim>\<open>get_map\<close> with explicit boundary conditions only has
  returned the map \<open>m\<close> and the state \<open>self'\<close>, a call on \<open>self'\<close> and the same entity set
  with the same boundary conditions in any other order returns the same object \<open>m\<close>
  (the same identity and content) and leaves the state as it is. The hashes of the
  boundary conditions are their identities: distinct ones have distinct hashes.
\<close>

theorem cache_hit_any_order:
  assumes perm: "mset bcs1 = mset bcs2"
    and inj: "inj_on bc_hash (set bcs1)"
    and expl: "list_all explicit_bc bcs1"
    and first: "get_map t self V es arity (Some bcs1) name offset parent = Inr (m, self')"
  shows "get_map t self' V es arity' (Some bcs2) name' offset' parent' = Inr (m, self')"
proof -
  from perm have sets: "set bcs1 = set bcs2" by (rule mset_eq_setD)
  with expl have expl2: "list_all explicit_bc bcs2" by (simp add: list_all_iff)
  have s1: "split_bcs (Some bcs1) = (bcs1, None)" using expl by (rule split_bcs_no_implicit)
  have s2: "split_bcs (Some bcs2) = (bcs2, None)" using expl2 by (rule split_bcs_no_implicit)
  have key: "sort_key bc_hash bcs1 = sort_key bc_hash bcs2"
    by (rule sort_key_inj_key_eq) (simp_all add: perm inj)
  from get_map_stored [OF s1 first] obtain enl cache'
    where V: "sp_len V = 1" and enl: "entity_node_lists self' es = Some enl"
      and check: "check_function_spaces V bcs1 = Inr ()"
      and cache: "map_caches self' es = Some cache'" "cache' (sort_key bc_hash bcs1) = Some m"
    by blast
  from check have check2: "check_function_spaces V bcs2 = Inr ()"
    by (simp add: check_function_spaces_set [OF sets])
  from cache(2) have hit: "cache' (sort_key bc_hash bcs2) = Some m" by (simp only: key)
  from V enl s2 check2 cache(1) hit show ?thesis by (rule get_map_hit)
qed

theorem cache_hit_any_order_witness:
  "mset [bc_left, bc_right] = mset [bc_right, bc_left] \<and>
   [bc_left, bc_right] \<noteq> [bc_right, bc_left] \<and>
   inj_on bc_hash (set [bc_left, bc_right]) \<and>
   list_all explicit_bc [bc_left, bc_right] \<and>
   (\<exists>m self'.
      get_map Int32 (interval_data False) space_V CellSet 2 (Some [bc_left, bc_right])
        ''cell_node'' None None = Inr (m, self') \<and>
      get_map Int32 self' space_V CellSet 2 (Some [bc_right, bc_left])
        ''cell_node'' None None = Inr (m, self'))"
proof -
  have a: "mset [bc_left, bc_right] = mset [bc_right, bc_left]" by (simp add: add.commute)
  have b: "[bc_left, bc_right] \<noteq> [bc_right, bc_left]" by (simp add: bc_left_def bc_right_def)
  have c: "inj_on bc_hash (set [bc_left, bc_right])" by (simp add: bc_left_def bc_right_def)
  have d: "list_all explicit_bc [bc_left, bc_right]"
    by (simp add: explicit_bc_def is_top_bottom_def bc_left_def bc_right_def)
  have V: "sp_len space_V = 1" by (simp add: space_V_def)
  have s: "fst (split_bcs (Some [bc_left, bc_right])) = [bc_left, bc_right]"
    using d by (simp add: split_bcs_no_implicit)
  have k: "check_function_spaces space_V (fst (split_bcs (Some [bc_left, bc_right]))) = Inr ()"
    unfolding s
    by (simp add: check_function_spaces_def bc_left_def bc_right_def scalar_space_def space_V_def)
  have miss: "Map.empty (sort_key bc_hash (fst (split_bcs (Some [bc_left, bc_right])))) = None"
    by simp
  have v: "constrained_values Int32 (interval_data False)
      (sort_key bc_hash (fst (split_bcs (Some [bc_left, bc_right])))) [[0, 1], [1, 2], [2, 3]]
      = Inr [[- 1, 1], [1, 2], [2, - 4]]"
    unfolding s
    by (simp add: constrained_values_def Let_def any_component_def bc_step_def is_top_bottom_def
        bc_left_def bc_right_def scalar_space_def interval_data_simps arange_def np_take_def
        take_at_def norm_index_def wrap_def index_bits_def union1d_def np_unique_def
        upt_rec [of 0] upt_rec [of 1] upt_rec [of 2] upt_rec [of 3] upt_rec [of "Suc 0"])
  from get_map_miss_values [OF V interval_data_simps(1,2) k miss v, of 2 "''cell_node''" None None]
  obtain m self' where first: "get_map Int32 (interval_data False) space_V CellSet 2
      (Some [bc_left, bc_right]) ''cell_node'' None None = Inr (m, self')"
    by blast
  from cache_hit_any_order [OF a c d first] first a b c d show ?thesis by blast
qed

subsection \<open>Boundary masks\<close>

lemma mask_after_Nil [simp]: "mask_after dim [] st = st"
  by (simp add: mask_after_def entry_dofs_def entry_indices_def entry_facets_def)

lemma mask_after_append:
  "mask_after dim (es1 @ es2) st = mask_after dim es2 (mask_after dim es1 st)"
  by (simp add: mask_after_def entry_dofs_def entry_indices_def entry_facets_def
      enumerate_append_eq)

lemma mask_after_Cons:
  "mask_after dim (e # es) st = mask_after dim es (mask_after dim [e] st)"
  using mask_after_append [of dim "[e]" es st] by simp

lemma mask_key_step_entry:
  assumes "getitem ecd ent = Inr inner" "getitem inner key = Inr d"
  shows "mask_key_step dim ecd None ent key st = Inr (mask_after dim [(ent, d)] st)"
  using assms
  by (simp add: mask_key_step_def Let_def mask_after_def entry_dofs_def entry_indices_def
      entry_facets_def setDof_def)

lemma mask_key_loop:
  assumes "getitem ecd ent = Inr inner"
    and "\<And>k. k \<in> set ks \<Longrightarrow> getitem inner k = Inr (g k)"
  shows "fold_err (mask_key_step dim ecd None ent) ks st
         = Inr (mask_after dim (map (\<lambda>k. (ent, g k)) ks) st)"
  using assms(2)
proof (induction ks arbitrary: st)
  case Nil
  show ?case by simp
next
  case (Cons k ks)
  have "mask_key_step dim ecd None ent k st = Inr (mask_after dim [(ent, g k)] st)"
    using assms(1) Cons.prems [of k] by (intro mask_key_step_entry) simp_all
  moreover have "fold_err (mask_key_step dim ecd None ent) ks (mask_after dim [(ent, g k)] st)
      = Inr (mask_after dim (map (\<lambda>k. (ent, g k)) ks) (mask_after dim [(ent, g k)] st))"
    by (rule Cons.IH) (simp add: Cons.prems)
  ultimately show ?case
    by (simp add: mask_after_Cons [of dim "(ent, g k)" "map (\<lambda>k. (ent, g k)) ks"])
qed

lemma mask_ent_step_entries:
  assumes "ent \<in> set (map fst ecd)"
  shows "mask_ent_step dim ecd None ent st = Inr (mask_after dim (ent_entries dim ecd ent) st)"
proof (cases "sum_list ent = dim")
  case True
  then show ?thesis by (simp add: mask_ent_step_def ent_entries_def)
next
  case False
  from assms obtain inner where m: "map_of ecd ent = Some inner"
    by (cases "map_of ecd ent") (auto simp: map_of_eq_None_iff)
  then have g: "getitem ecd ent = Inr inner" by (simp add: getitem_def)
  have "fold_err (mask_key_step dim ecd None ent) (sort (map fst inner)) st
      = Inr (mask_after dim
               (map (\<lambda>k. (ent, case map_of inner k of None \<Rightarrow> [] | Some d \<Rightarrow> d))
                  (sort (map fst inner))) st)"
    using g
  proof (rule mask_key_loop)
    fix k assume "k \<in> set (sort (map fst inner))"
    then obtain d where "map_of inner k = Some d"
      by (cases "map_of inner k") (auto simp: map_of_eq_None_iff)
    then show "getitem inner k = Inr (case map_of inner k of None \<Rightarrow> [] | Some d \<Rightarrow> d)"
      by (simp add: getitem_def)
  qed
  with False g m show ?thesis by (simp add: mask_ent_step_def ent_entries_def)
qed

lemma mask_ent_loop:
  assumes "set ents \<subseteq> set (map fst ecd)"
  shows "fold_err (mask_ent_step dim ecd None) ents st
         = Inr (mask_after dim (concat (map (ent_entries dim ecd) ents)) st)"
  using assms
proof (induction ents arbitrary: st)
  case Nil
  show ?case by simp
next
  case (Cons ent ents)
  from Cons.prems have "ent \<in> set (map fst ecd)" "set ents \<subseteq> set (map fst ecd)" by simp_all
  with Cons.IH show ?case
    by (simp add: mask_ent_step_entries mask_after_append)
qed

text \<open>
  Claim C8, as the code has it: on an extruded mesh, when \<^verbatim>\<open>entity_support_dofs()\<close> raises
  \<^verbatim>\<open>NotImplementedError\<close>, \<^verbatim>\<open>get_boundary_masks\<close> does not raise and returns a
  dictionary with both keys. The topological mask is produced as usual: its section,
  indices and facet points are those of the closure dofs of the entities other than the
  cell, in ascending order. The geometric mask is present, with no indices, no dof count
  set in its section, and the facet points of the topological mask.
\<close>

theorem masks_without_support_dofs:
  assumes "fe_entity_support_dofs el = None"
  shows "get_boundary_masks True el =
         Inr (Some
           [(''topological'',
             topological_mask (fe_spatial_dimension el) (fe_entity_closure_dofs el)),
            (''geometric'',
             \<lparr>mm_section = \<lparr>sec_chart = (0, mask_chart (fe_entity_closure_dofs el)),
                             sec_dofs = [], sec_is_setup = True\<rparr>,
              mm_indices = [],
              mm_facet_points = mm_facet_points
                (topological_mask (fe_spatial_dimension el) (fe_entity_closure_dofs el))\<rparr>)])"
proof -
  let ?ecd = "fe_entity_closure_dofs el"
  let ?dim = "fe_spatial_dimension el"
  let ?st0 = "\<lparr>closure_section = setChart section_create 0 (mask_chart ?ecd),
                 support_section = setChart section_create 0 (mask_chart ?ecd),
                 closure_indices = [], support_indices = [], facet_points = [], point = 0\<rparr>"
  have "fold_err (mask_ent_step ?dim ?ecd None) (sort (map fst ?ecd)) ?st0
      = Inr (mask_after ?dim (closure_entries ?dim ?ecd) ?st0)"
    unfolding closure_entries_def by (rule mask_ent_loop) simp
  with assms show ?thesis
    by (simp add: get_boundary_masks_def Let_def mask_chart_def [symmetric] mask_after_def
        topological_mask_def setChart_def section_create_def setUp_def)
qed

theorem masks_without_support_dofs_witness:
  "fe_entity_support_dofs q1_element = None \<and>
   closure_entries 2 (fe_entity_closure_dofs q1_element) =
     [([0, 0], [0]), ([0, 0], [1]), ([0, 0], [2]), ([0, 0], [3]),
      ([0, 1], [0, 1]), ([0, 1], [2, 3]), ([1, 0], [0, 2]), ([1, 0], [1, 3])] \<and>
   get_boundary_masks True q1_element =
     Inr (Some
       [(''topological'',
         topological_mask (fe_spatial_dimension q1_element) (fe_entity_closure_dofs q1_element)),
        (''geometric'',
         \<lparr>mm_section = \<lparr>sec_chart = (0, mask_chart (fe_entity_closure_dofs q1_element)),
                         sec_dofs = [], sec_is_setup = True\<rparr>,
          mm_indices = [],
          mm_facet_points = mm_facet_points
            (topological_mask (fe_spatial_dimension q1_element)
               (fe_entity_closure_dofs q1_element))\<rparr>)]) \<and>
   topological_mask (fe_spatial_dimension q1_element) (fe_entity_closure_dofs q1_element) =
     \<lparr>mm_section = \<lparr>sec_chart = (0, 8),
        sec_dofs = [(7, 2), (6, 2), (5, 2), (4, 2), (3, 1), (2, 1), (1, 1), (0, 1)],
        sec_is_setup = True\<rparr>,
      mm_indices = [0, 1, 2, 3, 0, 1, 2, 3, 0, 2, 1, 3],
      mm_facet_points = [4, 5, 6, 7]\<rparr>"
proof -
  have a: "fe_entity_support_dofs q1_element = None" by (simp add: q1_element_def)
  have b: "closure_entries 2 (fe_entity_closure_dofs q1_element) =
     [([0, 0], [0]), ([0, 0], [1]), ([0, 0], [2]), ([0, 0], [3]),
      ([0, 1], [0, 1]), ([0, 1], [2, 3]), ([1, 0], [0, 2]), ([1, 0], [1, 3])]"
    by (simp add: closure_entries_def ent_entries_def q1_element_def list_le_def list_less_def)
  have d: "fe_spatial_dimension q1_element = 2" by (simp add: q1_element_def)
  have c: "topological_mask (fe_spatial_dimension q1_element) (fe_entity_closure_dofs q1_element) =
     \<lparr>mm_section = \<lparr>sec_chart = (0, 8),
        sec_dofs = [(7, 2), (6, 2), (5, 2), (4, 2), (3, 1), (2, 1), (1, 1), (0, 1)],
        sec_is_setup = True\<rparr>,
      mm_indices = [0, 1, 2, 3, 0, 1, 2, 3, 0, 2, 1, 3],
      mm_facet_points = [4, 5, 6, 7]\<rparr>"
    unfolding d topological_mask_def b
    by (simp add: mask_chart_def entry_dofs_def entry_indices_def entry_facets_def
        q1_element_def enumerate_eq_zip upt_rec [of 0] upt_rec [of 1] upt_rec [of 2]
        upt_rec [of 3] upt_rec [of 4] upt_rec [of 5] upt_rec [of 6] upt_rec [of 7]
        upt_rec [of "Suc 0"])
  from masks_without_support_dofs [OF a] a b c show ?thesis by (intro conjI)
qed

text \<open>
  Claim C8 as stated fails: for the bilinear element without support dofs the entry
  \<^verbatim>\<open>"geometric"\<close> of the masks is a mask, not \<open>None\<close>, and the key is present.
\<close>

theorem geometric_mask_counterexample:
  "fe_entity_support_dofs q1_element = None \<and>
   get_boundary_masks True q1_element =
     Inr (Some
       [(''topological'',
         \<lparr>mm_section = \<lparr>sec_chart = (0, 8),
            sec_dofs = [(7, 2), (6, 2), (5, 2), (4, 2), (3, 1), (2, 1), (1, 1), (0, 1)],
            sec_is_setup = True\<rparr>,
          mm_indices = [0, 1, 2, 3, 0, 1, 2, 3, 0, 2, 1, 3],
          mm_facet_points = [4, 5, 6, 7]\<rparr>),
        (''geometric'',
         \<lparr>mm_section = \<lparr>sec_chart = (0, 8), sec_dofs = [], sec_is_setup = True\<rparr>,
          mm_indices = [], mm_facet_points = [4, 5, 6, 7]\<rparr>)]) \<and>
   map_of (the (projr (get_boundary_masks True q1_element))) ''geometric'' \<noteq> None"
proof -
  have a: "get_boundary_masks True q1_element =
     Inr (Some
       [(''topological'',
         \<lparr>mm_section = \<lparr>sec_chart = (0, 8),
            sec_dofs = [(7, 2), (6, 2), (5, 2), (4, 2), (3, 1), (2, 1), (1, 1), (0, 1)],
            sec_is_setup = True\<rparr>,
          mm_indices = [0, 1, 2, 3, 0, 1, 2, 3, 0, 2, 1, 3],
          mm_facet_points = [4, 5, 6, 7]\<rparr>),
        (''geometric'',
         \<lparr>mm_section = \<lparr>sec_chart = (0, 8), sec_dofs = [], sec_is_setup = True\<rparr>,
          mm_indices = [], mm_facet_points = [4, 5, 6, 7]\<rparr>)])"
    by (simp add: get_boundary_masks_def q1_element_def Let_def mask_ent_step_def
        mask_key_step_def getitem_def setChart_def setDof_def setUp_def section_create_def
        list_le_def list_less_def)
  show ?thesis unfolding a by (simp add: q1_element_def)
qed

end
